theory Spec2Isabelle
  imports Complex_Main "HOL-Library.AList"
begin

section \<open>Data model (src/main.py, src/constants.py)\<close>

text \<open>
  The two piece colours of \<^verbatim>\<open>constants.py\<close>. The source stores RGB triples and only ever
  compares them for equality, so a two-valued datatype carries the same information.
  WHITE is the human side (it moves towards row 0), BLACK the automated side.
\<close>

datatype color = WHITE | BLACK

definition ROWS :: int where "ROWS = 8"
definition COLS :: int where "COLS = 8"

text \<open>
  \<^verbatim>\<open>class Piece\<close>: \<^verbatim>\<open>row\<close>, \<^verbatim>\<open>col\<close>, \<^verbatim>\<open>color\<close>, \<^verbatim>\<open>king\<close>. The screen coordinates
  \<^verbatim>\<open>x\<close>, \<^verbatim>\<open>y\<close> are recomputed from \<^verbatim>\<open>row\<close> and \<^verbatim>\<open>col\<close> by \<^verbatim>\<open>calculate_position\<close> after
  every change, are read by the drawing code only, and are left out.

  Python compares pieces by identity (\<^verbatim>\<open>Piece\<close> defines no \<^verbatim>\<open>__eq__\<close>). Here a piece is
  the value of its fields: two piece objects of one board are told apart by their
  coordinates, which differ as long as every piece sits on the square its own
  \<^verbatim>\<open>row\<close> and \<^verbatim>\<open>col\<close> name (\<^verbatim>\<open>create_board\<close>, \<^verbatim>\<open>move\<close> and \<^verbatim>\<open>remove\<close> keep it so).
\<close>

record piece =
  row :: int
  col :: int
  color :: color
  king :: bool

text \<open>A square of the grid holds the integer 0 or a piece.\<close>

datatype cell = Empty | Occ piece

type_synonym grid = "cell list list"

text \<open>
  \<^verbatim>\<open>class Board\<close>: the grid \<^verbatim>\<open>self.board\<close> and the four counters.
  \<^verbatim>\<open>selected_piece\<close> is set to None by the constructor and never used again.
\<close>

record board =
  grid :: grid
  black_left :: int
  white_left :: int
  black_kings :: int
  white_kings :: int

datatype error = IndexError | AttributeError | ValueError | KeyError

subsection \<open>Python list indexing\<close>

text \<open>
  \<^verbatim>\<open>xs[i]\<close>: an index from \<open>- len\<close> up to \<open>len - 1\<close> is accepted, a negative one counts
  from the end, anything else raises IndexError.
\<close>

definition py_index :: "nat \<Rightarrow> int \<Rightarrow> nat option" where
  "py_index n i =
     (if 0 \<le> i \<and> i < int n then Some (nat i)
      else if - int n \<le> i \<and> i < 0 then Some (nat (i + int n))
      else None)"

definition grid_get :: "'a list list \<Rightarrow> int \<Rightarrow> int \<Rightarrow> error + 'a" where
  "grid_get g r c =
     (case py_index (length g) r of
        None \<Rightarrow> Inl IndexError
      | Some i \<Rightarrow>
          (case py_index (length (g ! i)) c of
             None \<Rightarrow> Inl IndexError
           | Some j \<Rightarrow> Inr (g ! i ! j)))"

definition grid_set :: "'a list list \<Rightarrow> int \<Rightarrow> int \<Rightarrow> 'a \<Rightarrow> error + 'a list list" where
  "grid_set g r c v =
     (case py_index (length g) r of
        None \<Rightarrow> Inl IndexError
      | Some i \<Rightarrow>
          (case py_index (length (g ! i)) c of
             None \<Rightarrow> Inl IndexError
           | Some j \<Rightarrow> Inr (g[i := (g ! i)[j := v]])))"

subsection \<open>Piece\<close>

definition Piece :: "int \<Rightarrow> int \<Rightarrow> color \<Rightarrow> piece" where
  "Piece r c k = \<lparr>row = r, col = c, color = k, king = False\<rparr>"

definition elevate_to_king :: "piece \<Rightarrow> piece" where
  "elevate_to_king p = p\<lparr>king := True\<rparr>"

definition Piece_move :: "piece \<Rightarrow> int \<Rightarrow> int \<Rightarrow> piece" where
  "Piece_move p r c = p\<lparr>row := r, col := c\<rparr>"

subsection \<open>Board: evaluate, get\_piece, move, remove\<close>

text \<open>
  \<^verbatim>\<open>evaluate\<close> computes \<^verbatim>\<open>(black_left + 0.5*black_kings) - (white_left + 0.5*white_kings)\<close>
  in floating point. Halves of integers and their sums are exact there for counters of
  any size a game reaches, so the score is modelled as the rational number itself.
\<close>

definition evaluate :: "board \<Rightarrow> rat" where
  "evaluate b =
     (of_int (black_left b) + (1 / 2) * of_int (black_kings b))
     - (of_int (white_left b) + (1 / 2) * of_int (white_kings b))"

definition get_piece :: "board \<Rightarrow> int \<Rightarrow> int \<Rightarrow> error + cell" where
  "get_piece b r c = grid_get (grid b) r c"

text \<open>
  \<^verbatim>\<open>Board.move\<close>. The tuple assignment reads both squares, then writes the old content
  of the destination to the piece's square and the old content of the piece's square to
  the destination. \<^verbatim>\<open>piece.move\<close> and \<^verbatim>\<open>piece.elevate_to_king\<close> then change the piece
  object; the grid shows the change where it holds that object, which is the destination
  when the piece's own square held the piece. The promotion test runs after
  \<^verbatim>\<open>elevate_to_king\<close>, as in the source. The result is the board and the piece after
  the call.
\<close>

definition Board_move :: "board \<Rightarrow> piece \<Rightarrow> int \<Rightarrow> int \<Rightarrow> error + (board \<times> piece)" where
  "Board_move b p r c =
     (case grid_get (grid b) r c of
        Inl e \<Rightarrow> Inl e
      | Inr dst \<Rightarrow>
     (case grid_get (grid b) (row p) (col p) of
        Inl e \<Rightarrow> Inl e
      | Inr src \<Rightarrow>
     (case grid_set (grid b) (row p) (col p) dst of
        Inl e \<Rightarrow> Inl e
      | Inr g1 \<Rightarrow>
     (case grid_set g1 r c src of
        Inl e \<Rightarrow> Inl e
      | Inr g2 \<Rightarrow>
          (let p1 = Piece_move p r c;
               p2 = (if r = ROWS - 1 \<or> r = 0 then elevate_to_king p1 else p1);
               g3 = (if src = Occ p
                     then (case grid_set g2 r c (Occ p2) of Inl e \<Rightarrow> g2 | Inr g \<Rightarrow> g)
                     else g2);
               b1 = b\<lparr>grid := g3\<rparr>
           in if r = ROWS - 1 \<or> r = 0 then
                (if color p2 = WHITE \<and> \<not> king p2
                 then Inr (b1\<lparr>white_kings := white_kings b1 + 1\<rparr>, p2)
                 else Inr (b1\<lparr>black_kings := black_kings b1 + 1\<rparr>, p2))
              else Inr (b1, p2))))))"

text \<open>
  \<^verbatim>\<open>Board.remove\<close>: for each piece of the list, its square is set to 0 and the
  remaining-piece counter of its colour is decremented. The test \<^verbatim>\<open>piece != 0\<close> is true
  for every piece object.
\<close>

fun Board_remove :: "board \<Rightarrow> piece list \<Rightarrow> error + board" where
  "Board_remove b [] = Inr b"
| "Board_remove b (p # ps) =
     (case grid_set (grid b) (row p) (col p) Empty of
        Inl e \<Rightarrow> Inl e
      | Inr g \<Rightarrow>
          (if color p = WHITE
           then Board_remove (b\<lparr>grid := g, white_left := white_left b - 1\<rparr>) ps
           else Board_remove (b\<lparr>grid := g, black_left := black_left b - 1\<rparr>) ps))"

subsection \<open>Board: the capture search\<close>

text \<open>
  A Python dict keeps its keys in insertion order; \<^verbatim>\<open>d[k] = v\<close> replaces the value of a
  key that is present, where it stands, and appends a new key. That is \<open>AList.update\<close>
  on an association list. \<^verbatim>\<open>d.update(other)\<close> stores the entries of \<^verbatim>\<open>other\<close> in order.
  A move map sends a destination \<open>(row, col)\<close> to the list of captured pieces.
\<close>

type_synonym moves = "((int \<times> int) \<times> piece list) list"

definition dict_update :: "moves \<Rightarrow> moves \<Rightarrow> moves" where
  "dict_update d other = fold (\<lambda>(k, v). AList.update k v) other d"

text \<open>\<^verbatim>\<open>range(start, stop, step)\<close> still has the value \<open>r\<close> to deliver.\<close>

definition in_range :: "int \<Rightarrow> int \<Rightarrow> int \<Rightarrow> bool" where
  "in_range r stop step = ((0 < step \<and> r < stop) \<or> (step < 0 \<and> stop < r))"

text \<open>
  \<^verbatim>\<open>moves[k]\<close>: the value stored under a key, KeyError without one.
\<close>

definition dict_get :: "moves \<Rightarrow> int \<times> int \<Rightarrow> error + piece list" where
  "dict_get d k = (case map_of d k of None \<Rightarrow> Inl KeyError | Some v \<Rightarrow> Inr v)"

text \<open>
  \<^verbatim>\<open>_search_left\<close> and \<^verbatim>\<open>_search_right\<close>. The \<^verbatim>\<open>for r in range(start, stop, step)\<close> loop
  is the recursion on \<open>r\<close>: the loop variables are the row \<open>r\<close>, the column
  (\<^verbatim>\<open>left\<close> or \<^verbatim>\<open>right\<close>) and \<^verbatim>\<open>last\<close> (written \<open>lastp\<close>: the empty list, or the one
  opponent piece just passed). Every path through the loop body that stores a destination
  ends in \<^verbatim>\<open>break\<close>, so the loop returns either the empty dict or the dict built at the
  landing square. The search reads the board through \<^verbatim>\<open>get_piece\<close> only, so the loops
  take the grid. \<^verbatim>\<open>range\<close> raises ValueError for a step of 0. \<^verbatim>\<open>current in skipped\<close> is
  false when the square holds 0.

  At a landing square each of the up to four statements
  \<^verbatim>\<open>moves.update(self._search_...(..., skipped=moves[(r, left)]))\<close> reads the entry of the
  landing square again: a search that comes back to the landing square stores a longer
  capture list under its key, and the searches after it start from that list.
\<close>

function search_left_loop ::
    "grid \<Rightarrow> bool \<Rightarrow> int \<Rightarrow> int \<Rightarrow> int \<Rightarrow> color \<Rightarrow> int \<Rightarrow> piece list \<Rightarrow> piece list
     \<Rightarrow> error + moves"
  and search_right_loop ::
    "grid \<Rightarrow> bool \<Rightarrow> int \<Rightarrow> int \<Rightarrow> int \<Rightarrow> color \<Rightarrow> int \<Rightarrow> piece list \<Rightarrow> piece list
     \<Rightarrow> error + moves"
  where
  "search_left_loop g is_king r stop step clr left skipped lastp =
     (if step = 0 then Inl ValueError
      else if \<not> in_range r stop step then Inr []
      else if left < 0 then Inr []
      else
        (case grid_get g r left of
           Inl e \<Rightarrow> Inl e
         | Inr Empty \<Rightarrow>
             (if skipped \<noteq> [] \<and> lastp = [] then Inr []
              else
                (let moves = [((r, left), if skipped \<noteq> [] then lastp @ skipped else lastp)]
                 in if lastp \<noteq> [] then
                      (let nstop = (if step = - 1 then max (r - 3) (- 1) else min (r + 3) ROWS)
                       in case dict_get moves (r, left) of
                            Inl e \<Rightarrow> Inl e
                          | Inr s1 \<Rightarrow>
                       (case search_left_loop g is_king (r + step) nstop step clr (left - 1) s1 [] of
                            Inl e \<Rightarrow> Inl e
                          | Inr m1 \<Rightarrow>
                       (let moves = dict_update moves m1
                        in case dict_get moves (r, left) of
                            Inl e \<Rightarrow> Inl e
                          | Inr s2 \<Rightarrow>
                       (case search_right_loop g is_king (r + step) nstop step clr (left + 1) s2 [] of
                            Inl e \<Rightarrow> Inl e
                          | Inr m2 \<Rightarrow>
                       (let moves = dict_update moves m2
                        in if is_king then
                             (let nstop = (if step = - 1 then min (r + 3) ROWS
                                           else max (r - 3) (- 1))
                              in case dict_get moves (r, left) of
                                   Inl e \<Rightarrow> Inl e
                                 | Inr s3 \<Rightarrow>
                              (case search_left_loop g is_king (r - step) nstop (- step) clr
                                      (left - 1) s3 [] of
                                   Inl e \<Rightarrow> Inl e
                                 | Inr m3 \<Rightarrow>
                              (let moves = dict_update moves m3
                               in case dict_get moves (r, left) of
                                   Inl e \<Rightarrow> Inl e
                                 | Inr s4 \<Rightarrow>
                              (case search_right_loop g is_king (r - step) nstop (- step) clr
                                      (left + 1) s4 [] of
                                   Inl e \<Rightarrow> Inl e
                                 | Inr m4 \<Rightarrow> Inr (dict_update moves m4)))))
                           else Inr moves)))))
                    else Inr moves))
         | Inr (Occ p) \<Rightarrow>
             (if p \<in> set skipped then Inr []
              else if color p = clr then Inr []
              else search_left_loop g is_king (r + step) stop step clr (left - 1) skipped [p])))"
| "search_right_loop g is_king r stop step clr right skipped lastp =
     (if step = 0 then Inl ValueError
      else if \<not> in_range r stop step then Inr []
      else if COLS \<le> right then Inr []
      else
        (case grid_get g r right of
           Inl e \<Rightarrow> Inl e
         | Inr Empty \<Rightarrow>
             (if skipped \<noteq> [] \<and> lastp = [] then Inr []
              else
                (let moves = [((r, right), if skipped \<noteq> [] then lastp @ skipped else lastp)]
                 in if lastp \<noteq> [] then
                      (let nstop = (if step = - 1 then max (r - 3) (- 1) else min (r + 3) ROWS)
                       in case dict_get moves (r, right) of
                            Inl e \<Rightarrow> Inl e
                          | Inr s1 \<Rightarrow>
                       (case search_left_loop g is_king (r + step) nstop step clr (right - 1) s1 [] of
                            Inl e \<Rightarrow> Inl e
                          | Inr m1 \<Rightarrow>
                       (let moves = dict_update moves m1
                        in case dict_get moves (r, right) of
                            Inl e \<Rightarrow> Inl e
                          | Inr s2 \<Rightarrow>
                       (case search_right_loop g is_king (r + step) nstop step clr (right + 1) s2 [] of
                            Inl e \<Rightarrow> Inl e
                          | Inr m2 \<Rightarrow>
                       (let moves = dict_update moves m2
                        in if is_king then
                             (let nstop = (if step = - 1 then min (r + 3) ROWS
                                           else max (r - 3) (- 1))
                              in case dict_get moves (r, right) of
                                   Inl e \<Rightarrow> Inl e
                                 | Inr s3 \<Rightarrow>
                              (case search_left_loop g is_king (r - step) nstop (- step) clr
                                      (right - 1) s3 [] of
                                   Inl e \<Rightarrow> Inl e
                                 | Inr m3 \<Rightarrow>
                              (let moves = dict_update moves m3
                               in case dict_get moves (r, right) of
                                   Inl e \<Rightarrow> Inl e
                                 | Inr s4 \<Rightarrow>
                              (case search_right_loop g is_king (r - step) nstop (- step) clr
                                      (right + 1) s4 [] of
                                   Inl e \<Rightarrow> Inl e
                                 | Inr m4 \<Rightarrow> Inr (dict_update moves m4)))))
                           else Inr moves)))))
                    else Inr moves))
         | Inr (Occ p) \<Rightarrow>
             (if p \<in> set skipped then Inr []
              else if color p = clr then Inr []
              else search_right_loop g is_king (r + step) stop step clr (right + 1) skipped [p])))"
  by pat_completeness auto

text \<open>
  Termination: a search started at a landing square is given a list that holds the
  capture list of the landing square, because every capture list a search returns holds
  the list the search was started with; so every recursive call made at a landing square
  has one more piece of the grid in \<^verbatim>\<open>skipped\<close>, and a piece in \<^verbatim>\<open>skipped\<close> is never
  jumped again; every loop step moves \<open>r\<close> towards \<open>stop\<close>.

  \<open>update_search res k f\<close> is one statement \<^verbatim>\<open>moves.update(f(skipped=moves[k]))\<close> on the
  dict \<open>res\<close> of the statements before it, and \<open>continue_search\<close> is the block of these
  statements at a landing square \<open>k\<close>: two searches, and two more when \<open>backward\<close> holds.
\<close>

definition update_search ::
    "error + moves \<Rightarrow> int \<times> int \<Rightarrow> (piece list \<Rightarrow> error + moves) \<Rightarrow> error + moves" where
  "update_search res k f =
     (case res of
        Inl e \<Rightarrow> Inl e
      | Inr moves \<Rightarrow>
          (case dict_get moves k of
             Inl e \<Rightarrow> Inl e
           | Inr s \<Rightarrow> (case f s of Inl e \<Rightarrow> Inl e | Inr m \<Rightarrow> Inr (dict_update moves m))))"

definition continue_search ::
    "int \<times> int \<Rightarrow> piece list \<Rightarrow> bool
     \<Rightarrow> (piece list \<Rightarrow> error + moves) \<Rightarrow> (piece list \<Rightarrow> error + moves)
     \<Rightarrow> (piece list \<Rightarrow> error + moves) \<Rightarrow> (piece list \<Rightarrow> error + moves)
     \<Rightarrow> error + moves" where
  "continue_search k cap backward f1 f2 f3 f4 =
     (let fw = update_search (update_search (Inr [(k, cap)]) k f1) k f2
      in if backward then update_search (update_search fw k f3) k f4 else fw)"

text \<open>Every capture list of a move map holds the pieces of \<open>s\<close>.\<close>

definition extends_all :: "piece list \<Rightarrow> moves \<Rightarrow> bool" where
  "extends_all s m = (\<forall>kv \<in> set m. set s \<subseteq> set (snd kv))"

definition pieces_on :: "grid \<Rightarrow> piece set" where
  "pieces_on g = {p. \<exists>cs \<in> set g. Occ p \<in> set cs}"

definition open_count :: "grid \<Rightarrow> piece list \<Rightarrow> piece list \<Rightarrow> nat" where
  "open_count b skipped lastp =
     card (pieces_on b - set skipped)
     + (if lastp \<noteq> [] \<and> set lastp \<inter> (pieces_on b - set skipped) = {} then 1 else 0)"

definition loop_distance :: "int \<Rightarrow> int \<Rightarrow> int \<Rightarrow> nat" where
  "loop_distance r stop step = nat (if 0 < step then stop - r else r - stop)"

lemma finite_pieces_on: "finite (pieces_on b)"
proof -
  have "pieces_on b = Occ -` (\<Union>cs \<in> set b. set cs)"
    by (auto simp: pieces_on_def)
  moreover have "finite (Occ -` (\<Union>cs \<in> set b. set cs))"
    by (rule finite_vimageI) (auto simp: inj_on_def)
  ultimately show ?thesis by simp
qed

lemma grid_get_on:
  assumes "grid_get b r c = Inr (Occ p)"
  shows "p \<in> pieces_on b"
proof -
  from assms obtain i j where
    "py_index (length b) r = Some i" "py_index (length (b ! i)) c = Some j"
    "b ! i ! j = Occ p"
    by (auto simp: grid_get_def split: option.splits)
  moreover then have "i < length b" "j < length (b ! i)"
    by (auto simp: py_index_def split: if_splits)
  ultimately show ?thesis
    unfolding pieces_on_def by (metis (mono_tags, lifting) mem_Collect_eq nth_mem)
qed

lemma open_count_step:
  assumes "p \<in> pieces_on b" and "p \<notin> set skipped"
  shows "open_count b skipped [p] \<le> open_count b skipped lastp"
  using assms by (simp add: open_count_def)

lemma open_count_capture:
  assumes "lastp \<noteq> []"
  shows "open_count b (lastp @ skipped) [] < open_count b skipped lastp"
proof (cases "set lastp \<inter> (pieces_on b - set skipped) = {}")
  case True
  then have "pieces_on b - set (lastp @ skipped) = pieces_on b - set skipped" by auto
  with True assms show ?thesis by (simp add: open_count_def)
next
  case False
  then have "pieces_on b - set (lastp @ skipped) \<subset> pieces_on b - set skipped" by auto
  then have "card (pieces_on b - set (lastp @ skipped)) < card (pieces_on b - set skipped)"
    by (intro psubset_card_mono) (auto simp: finite_pieces_on)
  with False show ?thesis by (simp add: open_count_def)
qed

lemma open_count_capture':
  assumes "lastp \<noteq> []"
  shows "open_count b (if skipped \<noteq> [] then lastp @ skipped else lastp) [] < open_count b skipped lastp"
  using open_count_capture[OF assms, of b skipped] by (cases skipped) auto

lemma open_count_step_eq:
  assumes "grid_get b r c = Inr (Occ p)" and "p \<notin> set skipped"
    and "\<not> open_count b skipped [p] < open_count b skipped lastp"
  shows "open_count b skipped [p] = open_count b skipped lastp"
  using open_count_step[OF grid_get_on[OF assms(1)] assms(2), of lastp] assms(3) by simp

lemma loop_distance_step:
  "step \<noteq> 0 \<Longrightarrow> in_range r stop step \<Longrightarrow>
   loop_distance (r + step) stop step < loop_distance r stop step"
  by (auto simp: loop_distance_def in_range_def)

lemma continue_search_unfold:
  "continue_search k cap backward f1 f2 f3 f4 =
     (case dict_get [(k, cap)] k of
        Inl e \<Rightarrow> Inl e
      | Inr s1 \<Rightarrow>
     (case f1 s1 of
        Inl e \<Rightarrow> Inl e
      | Inr m1 \<Rightarrow>
     (case dict_get (dict_update [(k, cap)] m1) k of
        Inl e \<Rightarrow> Inl e
      | Inr s2 \<Rightarrow>
     (case f2 s2 of
        Inl e \<Rightarrow> Inl e
      | Inr m2 \<Rightarrow>
     (if backward then
        (case dict_get (dict_update (dict_update [(k, cap)] m1) m2) k of
           Inl e \<Rightarrow> Inl e
         | Inr s3 \<Rightarrow>
        (case f3 s3 of
           Inl e \<Rightarrow> Inl e
         | Inr m3 \<Rightarrow>
        (case dict_get (dict_update (dict_update (dict_update [(k, cap)] m1) m2) m3) k of
           Inl e \<Rightarrow> Inl e
         | Inr s4 \<Rightarrow>
        (case f4 s4 of
           Inl e \<Rightarrow> Inl e
         | Inr m4 \<Rightarrow>
             Inr (dict_update (dict_update (dict_update (dict_update [(k, cap)] m1) m2) m3) m4)))))
      else Inr (dict_update (dict_update [(k, cap)] m1) m2))))))"
  by (simp add: continue_search_def update_search_def Let_def split: sum.splits)

lemma search_left_loop_landing_p:
  assumes "search_left_loop_search_right_loop_dom
             (Inl (g, is_king, r, stop, step, clr, left, skipped, lastp))"
    and "step \<noteq> 0" "in_range r stop step" "\<not> left < 0" "grid_get g r left = Inr Empty"
    and "lastp \<noteq> []"
  shows "search_left_loop g is_king r stop step clr left skipped lastp =
     continue_search (r, left) (if skipped \<noteq> [] then lastp @ skipped else lastp) is_king
       (\<lambda>s. search_left_loop g is_king (r + step)
              (if step = - 1 then max (r - 3) (- 1) else min (r + 3) ROWS) step clr (left - 1) s [])
       (\<lambda>s. search_right_loop g is_king (r + step)
              (if step = - 1 then max (r - 3) (- 1) else min (r + 3) ROWS) step clr (left + 1) s [])
       (\<lambda>s. search_left_loop g is_king (r - step)
              (if step = - 1 then min (r + 3) ROWS else max (r - 3) (- 1)) (- step) clr (left - 1) s [])
       (\<lambda>s. search_right_loop g is_king (r - step)
              (if step = - 1 then min (r + 3) ROWS else max (r - 3) (- 1)) (- step) clr (left + 1) s [])"
  apply (subst search_left_loop.psimps[OF assms(1)])
  apply (simp only: assms(2-) Let_def if_False if_True
           not_False_eq_True not_True_eq_False sum.case cell.case simp_thms)
  apply (simp only: continue_search_unfold)
  done

lemma dict_update_set:
  "kv \<in> set (dict_update d other) \<Longrightarrow> kv \<in> set d \<or> kv \<in> set other"
proof (induction other arbitrary: d)
  case Nil
  then show ?case by (simp add: dict_update_def)
next
  case (Cons x xs)
  obtain k v where x: "x = (k, v)" by (cases x)
  have "kv \<in> set (dict_update (AList.update k v d) xs)"
    using Cons.prems x by (simp add: dict_update_def)
  then have "kv \<in> set (AList.update k v d) \<or> kv \<in> set xs" by (rule Cons.IH)
  moreover have "kv \<in> set (AList.update k v d) \<Longrightarrow> kv = (k, v) \<or> kv \<in> set d"
    by (induction d) (auto split: if_splits)
  ultimately show ?case using x by auto
qed

lemma dict_get_single: "dict_get [(k, v)] k = Inr v"
  by (simp add: dict_get_def)

lemma dict_get_mem: "dict_get d k = Inr v \<Longrightarrow> (k, v) \<in> set d"
  by (auto simp: dict_get_def split: option.splits dest: map_of_SomeD)

lemma extends_all_dict_update:
  "extends_all s d \<Longrightarrow> extends_all s m \<Longrightarrow> extends_all s (dict_update d m)"
  unfolding extends_all_def by (blast dest: dict_update_set)

lemma extends_all_mono: "set s \<subseteq> set t \<Longrightarrow> extends_all t m \<Longrightarrow> extends_all s m"
  unfolding extends_all_def by blast

lemma extends_all_get:
  "extends_all s d \<Longrightarrow> dict_get d k = Inr v \<Longrightarrow> set s \<subseteq> set v"
  unfolding extends_all_def by (fastforce dest!: dict_get_mem)

lemma continue_search_invariant:
  assumes res: "continue_search k cap backward f1 f2 f3 f4 = Inr m"
    and closed: "\<And>d m. Q d \<Longrightarrow> Q m \<Longrightarrow> Q (dict_update d m)"
    and base: "Q [(k, cap)]"
    and c1: "\<And>m1. f1 cap = Inr m1 \<Longrightarrow> Q m1"
    and c2: "\<And>m1 s2 m2. f1 cap = Inr m1 \<Longrightarrow>
               Q (dict_update [(k, cap)] m1) \<Longrightarrow>
               dict_get (dict_update [(k, cap)] m1) k = Inr s2 \<Longrightarrow> f2 s2 = Inr m2 \<Longrightarrow> Q m2"
    and c3: "\<And>m1 s2 m2 s3 m3. f1 cap = Inr m1 \<Longrightarrow>
               dict_get (dict_update [(k, cap)] m1) k = Inr s2 \<Longrightarrow> f2 s2 = Inr m2 \<Longrightarrow>
               backward \<Longrightarrow>
               Q (dict_update (dict_update [(k, cap)] m1) m2) \<Longrightarrow>
               dict_get (dict_update (dict_update [(k, cap)] m1) m2) k = Inr s3 \<Longrightarrow>
               f3 s3 = Inr m3 \<Longrightarrow> Q m3"
    and c4: "\<And>m1 s2 m2 s3 m3 s4 m4. f1 cap = Inr m1 \<Longrightarrow>
               dict_get (dict_update [(k, cap)] m1) k = Inr s2 \<Longrightarrow> f2 s2 = Inr m2 \<Longrightarrow>
               backward \<Longrightarrow>
               dict_get (dict_update (dict_update [(k, cap)] m1) m2) k = Inr s3 \<Longrightarrow>
               f3 s3 = Inr m3 \<Longrightarrow>
               Q (dict_update (dict_update (dict_update [(k, cap)] m1) m2) m3) \<Longrightarrow>
               dict_get (dict_update (dict_update (dict_update [(k, cap)] m1) m2) m3) k = Inr s4 \<Longrightarrow>
               f4 s4 = Inr m4 \<Longrightarrow> Q m4"
  shows "Q m"
proof -
  note r = res[unfolded continue_search_unfold dict_get_single sum.case]
  from r obtain m1 where m1: "f1 cap = Inr m1" by (cases "f1 cap") auto
  let ?d1 = "dict_update [(k, cap)] m1"
  note r1 = r[unfolded m1 sum.case]
  from r1 obtain s2 where s2: "dict_get ?d1 k = Inr s2" by (cases "dict_get ?d1 k") auto
  note r2 = r1[unfolded s2 sum.case]
  from r2 obtain m2 where m2: "f2 s2 = Inr m2" by (cases "f2 s2") auto
  let ?d2 = "dict_update ?d1 m2"
  note r3 = r2[unfolded m2 sum.case]
  have q1: "Q ?d1" by (rule closed[OF base c1[OF m1]])
  have q2: "Q ?d2" by (rule closed[OF q1 c2[OF m1 q1 s2 m2]])
  show ?thesis
  proof (cases backward)
    case False
    with r3 q2 show ?thesis by simp
  next
    case True
    note r4 = r3[unfolded if_P[OF True]]
    from r4 obtain s3 where s3: "dict_get ?d2 k = Inr s3" by (cases "dict_get ?d2 k") auto
    note r5 = r4[unfolded s3 sum.case]
    from r5 obtain m3 where m3: "f3 s3 = Inr m3" by (cases "f3 s3") auto
    let ?d3 = "dict_update ?d2 m3"
    note r6 = r5[unfolded m3 sum.case]
    from r6 obtain s4 where s4: "dict_get ?d3 k = Inr s4" by (cases "dict_get ?d3 k") auto
    note r7 = r6[unfolded s4 sum.case]
    from r7 obtain m4 where m4: "f4 s4 = Inr m4" by (cases "f4 s4") auto
    note r8 = r7[unfolded m4 sum.case]
    have q3: "Q ?d3" by (rule closed[OF q2 c3[OF m1 s2 m2 True q2 s3 m3]])
    have q4: "Q (dict_update ?d3 m4)"
      by (rule closed[OF q3 c4[OF m1 s2 m2 True s3 m3 q3 s4 m4]])
    with r8 show ?thesis by simp
  qed
qed

lemma search_right_loop_landing_p:
  assumes "search_left_loop_search_right_loop_dom
             (Inr (g, is_king, r, stop, step, clr, right, skipped, lastp))"
    and "step \<noteq> 0" "in_range r stop step" "\<not> COLS \<le> right" "grid_get g r right = Inr Empty"
    and "lastp \<noteq> []"
  shows "search_right_loop g is_king r stop step clr right skipped lastp =
     continue_search (r, right) (if skipped \<noteq> [] then lastp @ skipped else lastp) is_king
       (\<lambda>s. search_left_loop g is_king (r + step)
              (if step = - 1 then max (r - 3) (- 1) else min (r + 3) ROWS) step clr (right - 1) s [])
       (\<lambda>s. search_right_loop g is_king (r + step)
              (if step = - 1 then max (r - 3) (- 1) else min (r + 3) ROWS) step clr (right + 1) s [])
       (\<lambda>s. search_left_loop g is_king (r - step)
              (if step = - 1 then min (r + 3) ROWS else max (r - 3) (- 1)) (- step) clr (right - 1) s [])
       (\<lambda>s. search_right_loop g is_king (r - step)
              (if step = - 1 then min (r + 3) ROWS else max (r - 3) (- 1)) (- step) clr (right + 1) s [])"
  apply (subst search_right_loop.psimps[OF assms(1)])
  apply (simp only: assms(2-) Let_def if_False if_True
           not_False_eq_True not_True_eq_False sum.case cell.case simp_thms)
  apply (simp only: continue_search_unfold)
  done

lemma search_dom_extends:
  shows "search_left_loop_search_right_loop_dom
           (Inl (g, is_king, r, stop, step, clr, c, skipped, lastp)) \<Longrightarrow>
         search_left_loop g is_king r stop step clr c skipped lastp = Inr m \<Longrightarrow>
         extends_all skipped m"
    and "search_left_loop_search_right_loop_dom
           (Inr (g, is_king, r, stop, step, clr, c, skipped, lastp)) \<Longrightarrow>
         search_right_loop g is_king r stop step clr c skipped lastp = Inr m \<Longrightarrow>
         extends_all skipped m"
proof (induction g is_king r stop step clr c skipped lastp
         and g is_king r stop step clr c skipped lastp
       arbitrary: m and m rule: search_left_loop_search_right_loop.pinduct)
  case (1 g is_king r stop step clr left skipped lastp)
  note dom = "1.hyps"
  note ps = search_left_loop.psimps[OF dom]
  note res = "1.prems"
  note body = res[unfolded ps]
  show ?case
  proof (cases "step = 0")
    case True
    with body show ?thesis by simp
  next
    case s: False
    show ?thesis
    proof (cases "\<not> in_range r stop step \<or> left < 0")
      case True
      with body s have "m = []" by (auto split: if_splits)
      then show ?thesis by (simp add: extends_all_def)
    next
      case False
      then have ir: "in_range r stop step" and ir': "\<not> \<not> in_range r stop step"
        and nl: "\<not> left < 0" by auto
      show ?thesis
      proof (cases "grid_get g r left")
        case (Inl e)
        with body s ir nl show ?thesis by simp
      next
        case (Inr cv)
        show ?thesis
        proof (cases cv)
          case Empty
          with Inr have gg: "grid_get g r left = Inr Empty" by simp
          show ?thesis
          proof (cases "lastp = []")
            case True
            with body s ir nl gg show ?thesis
              by (auto simp: extends_all_def split: if_splits)
          next
            case lne: False
            let ?cap = "if skipped \<noteq> [] then lastp @ skipped else lastp"
            have ne: "\<not> (skipped \<noteq> [] \<and> lastp = [])" using lne by simp
            have sub: "set skipped \<subseteq> set ?cap" by auto
            note cs = res[unfolded search_left_loop_landing_p[OF dom s ir nl gg lne]]
            note ih1 = "1.IH"(1)[OF s ir' nl gg refl ne refl lne refl dict_get_single]
            note ih2 = "1.IH"(2)[OF s ir' nl gg refl ne refl lne refl dict_get_single _ refl]
            note ih3 = "1.IH"(3)[OF s ir' nl gg refl ne refl lne refl dict_get_single _ refl
                         _ _ refl _ refl]
            note ih4 = "1.IH"(4)[OF s ir' nl gg refl ne refl lne refl dict_get_single _ refl
                         _ _ refl _ refl _ _ refl]
            have "extends_all ?cap m"
            proof (rule continue_search_invariant[OF cs, where Q = "extends_all ?cap"])
              show "extends_all ?cap [((r, left), ?cap)]" by (simp add: extends_all_def)
            qed (blast intro: extends_all_dict_update ih1 ih2 ih3 ih4
                   extends_all_mono[OF extends_all_get])+
            then show ?thesis by (rule extends_all_mono[OF sub])
          qed
        next
          case (Occ p)
          with Inr have gg: "grid_get g r left = Inr (Occ p)" by simp
          from body have "(if p \<in> set skipped then Inr []
                 else if color p = clr then Inr []
                 else search_left_loop g is_king (r + step) stop step clr (left - 1) skipped [p])
                = Inr m"
            by (simp add: s ir nl gg)
          then show ?thesis
            using "1.IH"(5)[OF s ir' nl gg refl]
            by (auto simp: extends_all_def split: if_splits)
        qed
      qed
    qed
  qed
next
  case (2 g is_king r stop step clr right skipped lastp)
  note dom = "2.hyps"
  note ps = search_right_loop.psimps[OF dom]
  note res = "2.prems"
  note body = res[unfolded ps]
  show ?case
  proof (cases "step = 0")
    case True
    with body show ?thesis by simp
  next
    case s: False
    show ?thesis
    proof (cases "\<not> in_range r stop step \<or> COLS \<le> right")
      case True
      with body s have "m = []" by (auto split: if_splits)
      then show ?thesis by (simp add: extends_all_def)
    next
      case False
      then have ir: "in_range r stop step" and ir': "\<not> \<not> in_range r stop step"
        and nl: "\<not> COLS \<le> right" by auto
      show ?thesis
      proof (cases "grid_get g r right")
        case (Inl e)
        with body s ir nl show ?thesis by simp
      next
        case (Inr cv)
        show ?thesis
        proof (cases cv)
          case Empty
          with Inr have gg: "grid_get g r right = Inr Empty" by simp
          show ?thesis
          proof (cases "lastp = []")
            case True
            with body s ir nl gg show ?thesis
              by (auto simp: extends_all_def split: if_splits)
          next
            case lne: False
            let ?cap = "if skipped \<noteq> [] then lastp @ skipped else lastp"
            have ne: "\<not> (skipped \<noteq> [] \<and> lastp = [])" using lne by simp
            have sub: "set skipped \<subseteq> set ?cap" by auto
            note cs = res[unfolded search_right_loop_landing_p[OF dom s ir nl gg lne]]
            note ih1 = "2.IH"(1)[OF s ir' nl gg refl ne refl lne refl dict_get_single]
            note ih2 = "2.IH"(2)[OF s ir' nl gg refl ne refl lne refl dict_get_single _ refl]
            note ih3 = "2.IH"(3)[OF s ir' nl gg refl ne refl lne refl dict_get_single _ refl
                         _ _ refl _ refl]
            note ih4 = "2.IH"(4)[OF s ir' nl gg refl ne refl lne refl dict_get_single _ refl
                         _ _ refl _ refl _ _ refl]
            have "extends_all ?cap m"
            proof (rule continue_search_invariant[OF cs, where Q = "extends_all ?cap"])
              show "extends_all ?cap [((r, right), ?cap)]" by (simp add: extends_all_def)
            qed (blast intro: extends_all_dict_update ih1 ih2 ih3 ih4
                   extends_all_mono[OF extends_all_get])+
            then show ?thesis by (rule extends_all_mono[OF sub])
          qed
        next
          case (Occ p)
          with Inr have gg: "grid_get g r right = Inr (Occ p)" by simp
          from body have "(if p \<in> set skipped then Inr []
                 else if color p = clr then Inr []
                 else search_right_loop g is_king (r + step) stop step clr (right + 1) skipped [p])
                = Inr m"
            by (simp add: s ir nl gg)
          then show ?thesis
            using "2.IH"(5)[OF s ir' nl gg refl]
            by (auto simp: extends_all_def split: if_splits)
        qed
      qed
    qed
  qed
qed

lemma chain_extends:
  "extends_all cap d \<Longrightarrow> dict_get d k = Inr s \<Longrightarrow> extends_all s m \<Longrightarrow>
   extends_all cap (dict_update d m)"
  by (blast intro: extends_all_dict_update extends_all_mono[OF extends_all_get])

lemma open_count_mono:
  assumes "set s \<subseteq> set t"
  shows "open_count g t [] \<le> open_count g s []"
proof -
  have "card (pieces_on g - set t) \<le> card (pieces_on g - set s)"
    using assms by (intro card_mono) (auto simp: finite_pieces_on)
  then show ?thesis by (simp add: open_count_def)
qed

lemma landing_measure:
  assumes "lastp \<noteq> []"
    and "set (if skipped \<noteq> [] then lastp @ skipped else lastp) \<subseteq> set s"
  shows "open_count g s [] < open_count g skipped lastp"
  using open_count_mono[OF assms(2), of g] open_count_capture'[OF assms(1), of g skipped]
  by simp

termination search_left_loop
proof (relation "measures
     [case_sum (\<lambda>(b, k, r, stop, step, clr, c, skipped, lastp). open_count b skipped lastp)
               (\<lambda>(b, k, r, stop, step, clr, c, skipped, lastp). open_count b skipped lastp),
      case_sum (\<lambda>(b, k, r, stop, step, clr, c, skipped, lastp). loop_distance r stop step)
               (\<lambda>(b, k, r, stop, step, clr, c, skipped, lastp). loop_distance r stop step)]",
    goal_cases)
  case 1
  show ?case by simp
next
  case (2 g is_king r stop step clr left skipped lastp b x xa ba)
  let ?cap = "if skipped \<noteq> [] then lastp @ skipped else lastp"
  let ?k = "(r, left)"
  from 2 have lne: "lastp \<noteq> []" by simp
  from 2 have x: "x = [(?k, ?cap)]" by simp
  from 2 have g0: "dict_get x ?k = Inr ba" by simp
  have d0: "extends_all ?cap x" by (simp add: x extends_all_def)
  have "set ?cap \<subseteq> set ba" by (rule extends_all_get[OF d0 g0])
  with lne have "open_count g ba [] < open_count g skipped lastp" by (rule landing_measure)
  then show ?case by simp
next
  case (3 g is_king r stop step clr left skipped lastp b x xa ba bb xb bc)
  let ?cap = "if skipped \<noteq> [] then lastp @ skipped else lastp"
  let ?k = "(r, left)"
  from 3 have lne: "lastp \<noteq> []" by simp
  from 3 have x: "x = [(?k, ?cap)]" by simp
  from 3 have g0: "dict_get x ?k = Inr ba" by simp
  have d0: "extends_all ?cap x" by (simp add: x extends_all_def)
  from 3 have dom1: "search_left_loop_search_right_loop_dom
      (Inl (g, is_king, r + step, xa, step, clr, left - 1, ba, []))" by simp
  from 3 have r1: "search_left_loop g is_king (r + step) xa (step) clr (left - 1) ba [] = Inr bb" by simp
  from 3 have x1: "xb = dict_update x bb" by simp
  from 3 have g1: "dict_get xb ?k = Inr bc" by simp
  have d1: "extends_all ?cap xb" unfolding x1
    by (rule chain_extends[OF d0 g0 search_dom_extends(1)[OF dom1 r1]])
  have "set ?cap \<subseteq> set bc" by (rule extends_all_get[OF d1 g1])
  with lne have "open_count g bc [] < open_count g skipped lastp" by (rule landing_measure)
  then show ?case by simp
next
  case (4 g is_king r stop step clr left skipped lastp b x xa ba bb xb bc bd xc xd be)
  let ?cap = "if skipped \<noteq> [] then lastp @ skipped else lastp"
  let ?k = "(r, left)"
  from 4 have lne: "lastp \<noteq> []" by simp
  from 4 have x: "x = [(?k, ?cap)]" by simp
  from 4 have g0: "dict_get x ?k = Inr ba" by simp
  have d0: "extends_all ?cap x" by (simp add: x extends_all_def)
  from 4 have dom1: "search_left_loop_search_right_loop_dom
      (Inl (g, is_king, r + step, xa, step, clr, left - 1, ba, []))" by simp
  from 4 have r1: "search_left_loop g is_king (r + step) xa (step) clr (left - 1) ba [] = Inr bb" by simp
  from 4 have x1: "xb = dict_update x bb" by simp
  from 4 have g1: "dict_get xb ?k = Inr bc" by simp
  have d1: "extends_all ?cap xb" unfolding x1
    by (rule chain_extends[OF d0 g0 search_dom_extends(1)[OF dom1 r1]])
  from 4 have dom2: "search_left_loop_search_right_loop_dom
      (Inr (g, is_king, r + step, xa, step, clr, left + 1, bc, []))" by simp
  from 4 have r2: "search_right_loop g is_king (r + step) xa (step) clr (left + 1) bc [] = Inr bd" by simp
  from 4 have x2: "xc = dict_update xb bd" by simp
  from 4 have g2: "dict_get xc ?k = Inr be" by simp
  have d2: "extends_all ?cap xc" unfolding x2
    by (rule chain_extends[OF d1 g1 search_dom_extends(2)[OF dom2 r2]])
  have "set ?cap \<subseteq> set be" by (rule extends_all_get[OF d2 g2])
  with lne have "open_count g be [] < open_count g skipped lastp" by (rule landing_measure)
  then show ?case by simp
next
  case (5 g is_king r stop step clr left skipped lastp b x xa ba bb xb bc bd xc xd be bf xe bg)
  let ?cap = "if skipped \<noteq> [] then lastp @ skipped else lastp"
  let ?k = "(r, left)"
  from 5 have lne: "lastp \<noteq> []" by simp
  from 5 have x: "x = [(?k, ?cap)]" by simp
  from 5 have g0: "dict_get x ?k = Inr ba" by simp
  have d0: "extends_all ?cap x" by (simp add: x extends_all_def)
  from 5 have dom1: "search_left_loop_search_right_loop_dom
      (Inl (g, is_king, r + step, xa, step, clr, left - 1, ba, []))" by simp
  from 5 have r1: "search_left_loop g is_king (r + step) xa (step) clr (left - 1) ba [] = Inr bb" by simp
  from 5 have x1: "xb = dict_update x bb" by simp
  from 5 have g1: "dict_get xb ?k = Inr bc" by simp
  have d1: "extends_all ?cap xb" unfolding x1
    by (rule chain_extends[OF d0 g0 search_dom_extends(1)[OF dom1 r1]])
  from 5 have dom2: "search_left_loop_search_right_loop_dom
      (Inr (g, is_king, r + step, xa, step, clr, left + 1, bc, []))" by simp
  from 5 have r2: "search_right_loop g is_king (r + step) xa (step) clr (left + 1) bc [] = Inr bd" by simp
  from 5 have x2: "xc = dict_update xb bd" by simp
  from 5 have g2: "dict_get xc ?k = Inr be" by simp
  have d2: "extends_all ?cap xc" unfolding x2
    by (rule chain_extends[OF d1 g1 search_dom_extends(2)[OF dom2 r2]])
  from 5 have dom3: "search_left_loop_search_right_loop_dom
      (Inl (g, is_king, r - step, xd, - step, clr, left - 1, be, []))" by simp
  from 5 have r3: "search_left_loop g is_king (r - step) xd (- step) clr (left - 1) be [] = Inr bf" by simp
  from 5 have x3: "xe = dict_update xc bf" by simp
  from 5 have g3: "dict_get xe ?k = Inr bg" by simp
  have d3: "extends_all ?cap xe" unfolding x3
    by (rule chain_extends[OF d2 g2 search_dom_extends(1)[OF dom3 r3]])
  have "set ?cap \<subseteq> set bg" by (rule extends_all_get[OF d3 g3])
  with lne have "open_count g bg [] < open_count g skipped lastp" by (rule landing_measure)
  then show ?case by simp
next
  case (6 g is_king r stop step clr left skipped lastp b x2)
  then show ?case by (auto intro: loop_distance_step open_count_step_eq)
next
  case (7 g is_king r stop step clr right skipped lastp b x xa ba)
  let ?cap = "if skipped \<noteq> [] then lastp @ skipped else lastp"
  let ?k = "(r, right)"
  from 7 have lne: "lastp \<noteq> []" by simp
  from 7 have x: "x = [(?k, ?cap)]" by simp
  from 7 have g0: "dict_get x ?k = Inr ba" by simp
  have d0: "extends_all ?cap x" by (simp add: x extends_all_def)
  have "set ?cap \<subseteq> set ba" by (rule extends_all_get[OF d0 g0])
  with lne have "open_count g ba [] < open_count g skipped lastp" by (rule landing_measure)
  then show ?case by simp
next
  case (8 g is_king r stop step clr right skipped lastp b x xa ba bb xb bc)
  let ?cap = "if skipped \<noteq> [] then lastp @ skipped else lastp"
  let ?k = "(r, right)"
  from 8 have lne: "lastp \<noteq> []" by simp
  from 8 have x: "x = [(?k, ?cap)]" by simp
  from 8 have g0: "dict_get x ?k = Inr ba" by simp
  have d0: "extends_all ?cap x" by (simp add: x extends_all_def)
  from 8 have dom1: "search_left_loop_search_right_loop_dom
      (Inl (g, is_king, r + step, xa, step, clr, right - 1, ba, []))" by simp
  from 8 have r1: "search_left_loop g is_king (r + step) xa (step) clr (right - 1) ba [] = Inr bb" by simp
  from 8 have x1: "xb = dict_update x bb" by simp
  from 8 have g1: "dict_get xb ?k = Inr bc" by simp
  have d1: "extends_all ?cap xb" unfolding x1
    by (rule chain_extends[OF d0 g0 search_dom_extends(1)[OF dom1 r1]])
  have "set ?cap \<subseteq> set bc" by (rule extends_all_get[OF d1 g1])
  with lne have "open_count g bc [] < open_count g skipped lastp" by (rule landing_measure)
  then show ?case by simp
next
  case (9 g is_king r stop step clr right skipped lastp b x xa ba bb xb bc bd xc xd be)
  let ?cap = "if skipped \<noteq> [] then lastp @ skipped else lastp"
  let ?k = "(r, right)"
  from 9 have lne: "lastp \<noteq> []" by simp
  from 9 have x: "x = [(?k, ?cap)]" by simp
  from 9 have g0: "dict_get x ?k = Inr ba" by simp
  have d0: "extends_all ?cap x" by (simp add: x extends_all_def)
  from 9 have dom1: "search_left_loop_search_right_loop_dom
      (Inl (g, is_king, r + step, xa, step, clr, right - 1, ba, []))" by simp
  from 9 have r1: "search_left_loop g is_king (r + step) xa (step) clr (right - 1) ba [] = Inr bb" by simp
  from 9 have x1: "xb = dict_update x bb" by simp
  from 9 have g1: "dict_get xb ?k = Inr bc" by simp
  have d1: "extends_all ?cap xb" unfolding x1
    by (rule chain_extends[OF d0 g0 search_dom_extends(1)[OF dom1 r1]])
  from 9 have dom2: "search_left_loop_search_right_loop_dom
      (Inr (g, is_king, r + step, xa, step, clr, right + 1, bc, []))" by simp
  from 9 have r2: "search_right_loop g is_king (r + step) xa (step) clr (right + 1) bc [] = Inr bd" by simp
  from 9 have x2: "xc = dict_update xb bd" by simp
  from 9 have g2: "dict_get xc ?k = Inr be" by simp
  have d2: "extends_all ?cap xc" unfolding x2
    by (rule chain_extends[OF d1 g1 search_dom_extends(2)[OF dom2 r2]])
  have "set ?cap \<subseteq> set be" by (rule extends_all_get[OF d2 g2])
  with lne have "open_count g be [] < open_count g skipped lastp" by (rule landing_measure)
  then show ?case by simp
next
  case (10 g is_king r stop step clr right skipped lastp b x xa ba bb xb bc bd xc xd be bf xe bg)
  let ?cap = "if skipped \<noteq> [] then lastp @ skipped else lastp"
  let ?k = "(r, right)"
  from 10 have lne: "lastp \<noteq> []" by simp
  from 10 have x: "x = [(?k, ?cap)]" by simp
  from 10 have g0: "dict_get x ?k = Inr ba" by simp
  have d0: "extends_all ?cap x" by (simp add: x extends_all_def)
  from 10 have dom1: "search_left_loop_search_right_loop_dom
      (Inl (g, is_king, r + step, xa, step, clr, right - 1, ba, []))" by simp
  from 10 have r1: "search_left_loop g is_king (r + step) xa (step) clr (right - 1) ba [] = Inr bb" by simp
  from 10 have x1: "xb = dict_update x bb" by simp
  from 10 have g1: "dict_get xb ?k = Inr bc" by simp
  have d1: "extends_all ?cap xb" unfolding x1
    by (rule chain_extends[OF d0 g0 search_dom_extends(1)[OF dom1 r1]])
  from 10 have dom2: "search_left_loop_search_right_loop_dom
      (Inr (g, is_king, r + step, xa, step, clr, right + 1, bc, []))" by simp
  from 10 have r2: "search_right_loop g is_king (r + step) xa (step) clr (right + 1) bc [] = Inr bd" by simp
  from 10 have x2: "xc = dict_update xb bd" by simp
  from 10 have g2: "dict_get xc ?k = Inr be" by simp
  have d2: "extends_all ?cap xc" unfolding x2
    by (rule chain_extends[OF d1 g1 search_dom_extends(2)[OF dom2 r2]])
  from 10 have dom3: "search_left_loop_search_right_loop_dom
      (Inl (g, is_king, r - step, xd, - step, clr, right - 1, be, []))" by simp
  from 10 have r3: "search_left_loop g is_king (r - step) xd (- step) clr (right - 1) be [] = Inr bf" by simp
  from 10 have x3: "xe = dict_update xc bf" by simp
  from 10 have g3: "dict_get xe ?k = Inr bg" by simp
  have d3: "extends_all ?cap xe" unfolding x3
    by (rule chain_extends[OF d2 g2 search_dom_extends(1)[OF dom3 r3]])
  have "set ?cap \<subseteq> set bg" by (rule extends_all_get[OF d3 g3])
  with lne have "open_count g bg [] < open_count g skipped lastp" by (rule landing_measure)
  then show ?case by simp
next
  case (11 g is_king r stop step clr right skipped lastp b x2)
  then show ?case by (auto intro: loop_distance_step open_count_step_eq)
qed

declare search_left_loop.simps [simp del]
declare search_right_loop.simps [simp del]

definition search_left ::
    "board \<Rightarrow> bool \<Rightarrow> int \<Rightarrow> int \<Rightarrow> int \<Rightarrow> color \<Rightarrow> int \<Rightarrow> piece list \<Rightarrow> error + moves" where
  "search_left b is_king start stop step clr left skipped =
     search_left_loop (grid b) is_king start stop step clr left skipped []"

definition search_right ::
    "board \<Rightarrow> bool \<Rightarrow> int \<Rightarrow> int \<Rightarrow> int \<Rightarrow> color \<Rightarrow> int \<Rightarrow> piece list \<Rightarrow> error + moves" where
  "search_right b is_king start stop step clr right skipped =
     search_right_loop (grid b) is_king start stop step clr right skipped []"

subsection \<open>Board: get\_valid\_moves, get\_all\_pieces, get\_all\_moves, winner\<close>

text \<open>
  \<^verbatim>\<open>get_valid_moves\<close>: up to four searches merged into \<^verbatim>\<open>moves\<close> (\<open>searched_moves\<close> is
  that dict after the last \<^verbatim>\<open>update\<close>), then the entries with a non-empty capture list
  copied to \<^verbatim>\<open>valid_moves\<close> in the order of \<^verbatim>\<open>moves\<close> (the keys of a dict are distinct, so
  the copy is a filter).
\<close>

definition searched_moves :: "board \<Rightarrow> piece \<Rightarrow> error + moves" where
  "searched_moves b piece =
     (let left = col piece - 1; right = col piece + 1; r = row piece
      in case (if color piece = WHITE \<or> king piece then
                 (case search_left b (king piece) (r - 1) (max (r - 3) (- 1)) (- 1)
                         (color piece) left [] of
                    Inl e \<Rightarrow> Inl e
                  | Inr m1 \<Rightarrow>
                 (case search_right b (king piece) (r - 1) (max (r - 3) (- 1)) (- 1)
                         (color piece) right [] of
                    Inl e \<Rightarrow> Inl e
                  | Inr m2 \<Rightarrow> Inr (dict_update (dict_update [] m1) m2)))
               else Inr []) of
           Inl e \<Rightarrow> Inl e
         | Inr moves_up \<Rightarrow>
             (if color piece = BLACK \<or> king piece then
                (case search_left b (king piece) (r + 1) (min (r + 3) ROWS) 1
                        (color piece) left [] of
                   Inl e \<Rightarrow> Inl e
                 | Inr m3 \<Rightarrow>
                (case search_right b (king piece) (r + 1) (min (r + 3) ROWS) 1
                        (color piece) right [] of
                   Inl e \<Rightarrow> Inl e
                 | Inr m4 \<Rightarrow> Inr (dict_update (dict_update moves_up m3) m4)))
              else Inr moves_up))"

definition get_valid_moves :: "board \<Rightarrow> piece \<Rightarrow> error + (moves \<times> bool)" where
  "get_valid_moves b piece =
     (case searched_moves b piece of
        Inl e \<Rightarrow> Inl e
      | Inr moves \<Rightarrow>
          (let valid_moves = filter (\<lambda>(k, v). v \<noteq> []) moves
           in if valid_moves \<noteq> [] then Inr (valid_moves, True) else Inr (moves, False)))"

definition get_all_pieces :: "board \<Rightarrow> color \<Rightarrow> piece list" where
  "get_all_pieces b clr =
     concat (map (\<lambda>cs. concat (map (\<lambda>c. case c of
                                             Empty \<Rightarrow> []
                                           | Occ p \<Rightarrow> (if color p = clr then [p] else [])) cs))
                 (grid b))"

text \<open>
  \<^verbatim>\<open>Board.get_all_moves\<close> extends its list with the value of \<^verbatim>\<open>get_valid_moves\<close>, which is
  the pair (dict, bool): \<^verbatim>\<open>list.extend\<close> appends the two components of the pair.
\<close>

datatype entry = EMoves moves | EFlag bool

fun all_moves_loop :: "board \<Rightarrow> piece list \<Rightarrow> entry list \<Rightarrow> error + entry list" where
  "all_moves_loop b [] acc = Inr acc"
| "all_moves_loop b (piece # ps) acc =
     (case get_valid_moves b piece of
        Inl e \<Rightarrow> Inl e
      | Inr (valid_moves, flag) \<Rightarrow> all_moves_loop b ps (acc @ [EMoves valid_moves, EFlag flag]))"

definition Board_get_all_moves :: "board \<Rightarrow> color \<Rightarrow> error + entry list" where
  "Board_get_all_moves b clr = all_moves_loop b (get_all_pieces b clr) []"

definition winner :: "board \<Rightarrow> error + color option" where
  "winner b =
     (if white_left b \<le> 0 then Inr (Some BLACK)
      else if black_left b < 0 then Inr (Some WHITE)
      else
        (case Board_get_all_moves b WHITE of
           Inl e \<Rightarrow> Inl e
         | Inr ws \<Rightarrow>
             (if length ws = 0 then Inr (Some BLACK)
              else
                (case Board_get_all_moves b BLACK of
                   Inl e \<Rightarrow> Inl e
                 | Inr bs \<Rightarrow>
                     (if length bs = 0 then Inr (Some WHITE) else Inr None)))))"

text \<open>\<^verbatim>\<open>create_board\<close> and the constructor of \<^verbatim>\<open>Board\<close>.\<close>

definition create_board :: grid where
  "create_board =
     map (\<lambda>r. map (\<lambda>c. if c mod 2 = (r + 1) mod 2 then
                           (if r \<le> 2 then Occ (Piece r c BLACK)
                            else if 5 \<le> r then Occ (Piece r c WHITE)
                            else Empty)
                         else Empty) [0..COLS - 1]) [0..ROWS - 1]"

definition Board :: board where
  "Board = \<lparr>grid = create_board, black_left = 12, white_left = 12,
             black_kings = 0, white_kings = 0\<rparr>"

section \<open>The search of src/minimax.py\<close>

subsection \<open>Board snapshots (Game.prepare\_board\_state)\<close>

text \<open>
  \<^verbatim>\<open>prepare_board_state\<close> works on a deep copy of the grid and overwrites it in place:
  a square of the copy holds 0, a piece, or one of the strings \<^verbatim>\<open>'B'\<close> and \<^verbatim>\<open>'BK'\<close>.
\<close>

datatype hcell = H0 | HPiece piece | HB | HBK

type_synonym snapshot = "hcell list list"

definition copy_grid :: "grid \<Rightarrow> snapshot" where
  "copy_grid g = map (map (\<lambda>c. case c of Empty \<Rightarrow> H0 | Occ p \<Rightarrow> HPiece p)) g"

text \<open>
  The two loops read the squares in row-major order, each square as it is when the loop
  reaches it, and write to the square named by the coordinates of the piece read.
  Reading \<^verbatim>\<open>.color\<close> of a string written earlier raises AttributeError.
\<close>

definition tag_of :: "piece \<Rightarrow> hcell" where
  "tag_of p = (if color p = WHITE then H0 else if king p then HBK else HB)"

fun prepare_row :: "snapshot \<Rightarrow> nat \<Rightarrow> nat list \<Rightarrow> error + snapshot" where
  "prepare_row g i [] = Inr g"
| "prepare_row g i (j # js) =
     (case g ! i ! j of
        H0 \<Rightarrow> prepare_row g i js
      | HPiece p \<Rightarrow>
          (case grid_set g (row p) (col p) (tag_of p) of
             Inl e \<Rightarrow> Inl e
           | Inr g' \<Rightarrow> prepare_row g' i js)
      | HB \<Rightarrow> Inl AttributeError
      | HBK \<Rightarrow> Inl AttributeError)"

fun prepare_rows :: "snapshot \<Rightarrow> nat list \<Rightarrow> error + snapshot" where
  "prepare_rows g [] = Inr g"
| "prepare_rows g (i # is) =
     (case prepare_row g i [0..<length (g ! i)] of
        Inl e \<Rightarrow> Inl e
      | Inr g' \<Rightarrow> prepare_rows g' is)"

definition prepare_board_state :: "snapshot \<Rightarrow> error + snapshot" where
  "prepare_board_state g = prepare_rows g [0..<length g]"

subsection \<open>Game state\<close>

text \<open>
  \<^verbatim>\<open>class Game\<close>. The window, the frame rate and the three counters \<^verbatim>\<open>games_played\<close>,
  \<^verbatim>\<open>white_wins\<close>, \<^verbatim>\<open>black_wins\<close> (set to 0 and never changed) are left out.
  \<^verbatim>\<open>ai_intelligence\<close> is the search depth, a natural number: the search counts it down
  to 0.
\<close>

record game =
  board :: board
  turn :: color
  selected :: "piece option"
  valid_moves :: moves
  board_history :: "snapshot list"
  history_length :: int
  ai :: bool
  ai_intelligence :: nat

definition Game :: "int \<Rightarrow> bool \<Rightarrow> nat \<Rightarrow> game" where
  "Game hl use_ai depth =
     \<lparr>board = Board, turn = WHITE, selected = None, valid_moves = [], board_history = [],
      history_length = hl, ai = use_ai, ai_intelligence = depth\<rparr>"

definition Game_default :: game where
  "Game_default = Game 15 True 4"

definition get_board :: "game \<Rightarrow> board" where
  "get_board g = board g"

subsection \<open>Move enumeration (minimax.get\_all\_moves, simulate\_move)\<close>

text \<open>
  The loop shared by \<^verbatim>\<open>Game.get_skip_status\<close> and the first loop of
  \<^verbatim>\<open>minimax.get_all_moves\<close>: \<^verbatim>\<open>skp\<close> becomes true when some piece reports a capture.
\<close>

fun skip_loop :: "board \<Rightarrow> piece list \<Rightarrow> bool \<Rightarrow> error + bool" where
  "skip_loop b [] skp = Inr skp"
| "skip_loop b (piece # ps) skp =
     (case get_valid_moves b piece of
        Inl e \<Rightarrow> Inl e
      | Inr (vm, skipped) \<Rightarrow> skip_loop b ps (if skipped then True else skp))"

definition get_skip_status :: "game \<Rightarrow> color \<Rightarrow> error + bool" where
  "get_skip_status g clr = skip_loop (board g) (get_all_pieces (board g) clr) False"

text \<open>
  \<^verbatim>\<open>simulate_move\<close> on the deep copy of the board. \<^verbatim>\<open>temp_piece\<close> is whatever the copy
  holds on the square of the piece; \<^verbatim>\<open>Board.move\<close> reads \<^verbatim>\<open>piece.row\<close>, which raises
  AttributeError when that is 0.
\<close>

definition simulate_move :: "cell \<Rightarrow> int \<times> int \<Rightarrow> board \<Rightarrow> piece list \<Rightarrow> error + board" where
  "simulate_move temp_piece mv b skip =
     (case temp_piece of
        Empty \<Rightarrow> Inl AttributeError
      | Occ p \<Rightarrow>
          (case Board_move b p (fst mv) (snd mv) of
             Inl e \<Rightarrow> Inl e
           | Inr (b1, p1) \<Rightarrow> (if skip \<noteq> [] then Board_remove b1 skip else Inr b1)))"

fun simulate_moves :: "board \<Rightarrow> piece \<Rightarrow> moves \<Rightarrow> error + board list" where
  "simulate_moves b piece [] = Inr []"
| "simulate_moves b piece ((mv, skip) # rest) =
     (case get_piece b (row piece) (col piece) of
        Inl e \<Rightarrow> Inl e
      | Inr temp_piece \<Rightarrow>
          (case simulate_move temp_piece mv b skip of
             Inl e \<Rightarrow> Inl e
           | Inr new_board \<Rightarrow>
               (case simulate_moves b piece rest of
                  Inl e \<Rightarrow> Inl e
                | Inr bs \<Rightarrow> Inr (new_board # bs))))"

fun moves_loop :: "board \<Rightarrow> piece list \<Rightarrow> bool \<Rightarrow> error + board list" where
  "moves_loop b [] skp = Inr []"
| "moves_loop b (piece # ps) skp =
     (case get_valid_moves b piece of
        Inl e \<Rightarrow> Inl e
      | Inr (vm, skipped) \<Rightarrow>
          (if skp \<and> \<not> skipped then moves_loop b ps skp
           else
             (case simulate_moves b piece vm of
                Inl e \<Rightarrow> Inl e
              | Inr bs \<Rightarrow>
                  (case moves_loop b ps skp of
                     Inl e \<Rightarrow> Inl e
                   | Inr rest \<Rightarrow> Inr (bs @ rest)))))"

definition minimax_get_all_moves :: "board \<Rightarrow> color \<Rightarrow> error + board list" where
  "minimax_get_all_moves b clr =
     (case skip_loop b (get_all_pieces b clr) False of
        Inl e \<Rightarrow> Inl e
      | Inr skp \<Rightarrow> moves_loop b (get_all_pieces b clr) skp)"

subsection \<open>minimax\<close>

text \<open>
  Scores are Python floats: \<^verbatim>\<open>-math.inf\<close>, \<^verbatim>\<open>math.inf\<close>, and the value of \<^verbatim>\<open>evaluate\<close>,
  divided at a repeated position by an integer from 1 up to the length of the history.
  The finite scores are modelled as the rational numbers they approximate; the rounding
  of the one division is not modelled.
\<close>

datatype score = NegInf | Fin rat | PosInf

fun score_le :: "score \<Rightarrow> score \<Rightarrow> bool" where
  "score_le NegInf y = True"
| "score_le (Fin a) NegInf = False"
| "score_le (Fin a) (Fin b) = (a \<le> b)"
| "score_le (Fin a) PosInf = True"
| "score_le PosInf PosInf = True"
| "score_le PosInf y = False"

definition score_max :: "score \<Rightarrow> score \<Rightarrow> score" where
  "score_max x y = (if score_le y x then x else y)"

definition score_min :: "score \<Rightarrow> score \<Rightarrow> score" where
  "score_min x y = (if score_le x y then x else y)"

text \<open>\<^verbatim>\<open>list.index\<close>: the first position of a value, ValueError (here None) without one.\<close>

fun list_index :: "'a list \<Rightarrow> 'a \<Rightarrow> nat option" where
  "list_index [] y = None"
| "list_index (x # xs) y =
     (if x = y then Some 0 else map_option Suc (list_index xs y))"

text \<open>
  The terminal branch of \<^verbatim>\<open>minimax\<close>: \<^verbatim>\<open>pos\<close> is the deep copy of the grid, normalised in
  place by \<^verbatim>\<open>prepare_board_state\<close>, and looked up in \<^verbatim>\<open>game.board_history\<close>. The lists
  are compared square by square. A piece object left in a snapshot would be compared by
  identity in Python and is compared by its fields here; no piece object is left in the
  snapshot of a grid where every piece sits on the square its \<^verbatim>\<open>row\<close> and \<^verbatim>\<open>col\<close> name.
\<close>

definition minimax_terminal :: "board \<Rightarrow> game \<Rightarrow> error + (score \<times> board option)" where
  "minimax_terminal position g =
     (case prepare_board_state (copy_grid (grid position)) of
        Inl e \<Rightarrow> Inl e
      | Inr pos \<Rightarrow>
          (if pos \<in> set (board_history g) then
             (case list_index (board_history g) pos of
                None \<Rightarrow> Inl ValueError
              | Some i \<Rightarrow>
                  Inr (Fin (evaluate position
                            / of_int (int (length (board_history g)) - int i)),
                       Some position))
           else Inr (Fin (evaluate position), Some position)))"

text \<open>
  \<^verbatim>\<open>minimax\<close>, with the two \<^verbatim>\<open>for move in get_all_moves(...)\<close> loops as \<open>max_loop\<close> and
  \<open>min_loop\<close>: their state is \<^verbatim>\<open>alpha\<close> or \<^verbatim>\<open>beta\<close>, \<^verbatim>\<open>best_score\<close> and
  \<^verbatim>\<open>best_move\<close>, and \<^verbatim>\<open>break\<close> returns the state. The test \<^verbatim>\<open>depth == 0\<close> comes before
  the call of \<^verbatim>\<open>winner\<close>. The loops are entered with \<open>depth - 1\<close>.
\<close>

fun minimax ::
    "board \<Rightarrow> nat \<Rightarrow> bool \<Rightarrow> game \<Rightarrow> score \<Rightarrow> score \<Rightarrow> error + (score \<times> board option)"
  and max_loop ::
    "board list \<Rightarrow> nat \<Rightarrow> game \<Rightarrow> score \<Rightarrow> score \<Rightarrow> score \<Rightarrow> board option
     \<Rightarrow> error + (score \<times> board option)"
  and min_loop ::
    "board list \<Rightarrow> nat \<Rightarrow> game \<Rightarrow> score \<Rightarrow> score \<Rightarrow> score \<Rightarrow> board option
     \<Rightarrow> error + (score \<times> board option)"
  where
  "minimax position 0 max_player g alpha beta = minimax_terminal position g"
| "minimax position (Suc d) max_player g alpha beta =
     (case winner position of
        Inl e \<Rightarrow> Inl e
      | Inr (Some w) \<Rightarrow> minimax_terminal position g
      | Inr None \<Rightarrow>
          (if max_player then
             (case minimax_get_all_moves position BLACK of
                Inl e \<Rightarrow> Inl e
              | Inr ms \<Rightarrow> max_loop ms d g alpha beta NegInf None)
           else
             (case minimax_get_all_moves position WHITE of
                Inl e \<Rightarrow> Inl e
              | Inr ms \<Rightarrow> min_loop ms d g alpha beta PosInf None)))"
| "max_loop [] d g alpha beta best_score best_move = Inr (best_score, best_move)"
| "max_loop (mv # ms) d g alpha beta best_score best_move =
     (case minimax mv d False g alpha beta of
        Inl e \<Rightarrow> Inl e
      | Inr (score, outcome) \<Rightarrow>
          (let best_score' = (if score_le best_score score then score else best_score);
               best_move' = (if score_le best_score score then Some mv else best_move);
               alpha' = score_max alpha best_score'
           in if score_le beta alpha' then Inr (best_score', best_move')
              else max_loop ms d g alpha' beta best_score' best_move'))"
| "min_loop [] d g alpha beta best_score best_move = Inr (best_score, best_move)"
| "min_loop (mv # ms) d g alpha beta best_score best_move =
     (case minimax mv d True g alpha beta of
        Inl e \<Rightarrow> Inl e
      | Inr (score, outcome) \<Rightarrow>
          (let best_score' = (if score_le score best_score then score else best_score);
               best_move' = (if score_le score best_score then Some mv else best_move);
               beta' = score_min beta best_score'
           in if score_le beta' alpha then Inr (best_score', best_move')
              else min_loop ms d g alpha beta' best_score' best_move'))"

section \<open>Game: turns and selection (src/main.py)\<close>

text \<open>
  \<^verbatim>\<open>ai_move\<close> and \<^verbatim>\<open>_change_turn\<close> call each other. \<^verbatim>\<open>not new_board\<close> is true for None
  only. \<^verbatim>\<open>board_history.pop()\<close> drops the last entry.
\<close>

function ai_move :: "game \<Rightarrow> error + game"
  and change_turn :: "game \<Rightarrow> error + game"
  where
  "ai_move g =
     (case minimax (get_board g) (ai_intelligence g) True g NegInf PosInf of
        Inl e \<Rightarrow> Inl e
      | Inr (v, None) \<Rightarrow> Inr g
      | Inr (v, Some new_board) \<Rightarrow>
          (case prepare_board_state (copy_grid (grid new_board)) of
             Inl e \<Rightarrow> Inl e
           | Inr temp_board \<Rightarrow>
               (let h = temp_board # board_history g;
                    h' = (if history_length g < int (length h) then butlast h else h)
                in change_turn (g\<lparr>board := new_board, board_history := h'\<rparr>))))"
| "change_turn g =
     (let g1 = g\<lparr>valid_moves := [], selected := None\<rparr>
      in if turn g1 = WHITE then
           (let g2 = g1\<lparr>turn := BLACK\<rparr>
            in if ai g2 then ai_move g2 else Inr g2)
         else Inr (g1\<lparr>turn := WHITE\<rparr>))"
  by pat_completeness auto
termination
  by (relation "measure (case_sum (\<lambda>g. if turn g = WHITE then 3 else 1)
                                  (\<lambda>g. if turn g = WHITE then 2 else 0))")
     (auto simp: Let_def)

declare ai_move.simps [simp del]
declare change_turn.simps [simp del]

text \<open>\<^verbatim>\<open>Game._move\<close>: the result is the game after the call and the returned boolean.\<close>

definition Game_move :: "game \<Rightarrow> int \<Rightarrow> int \<Rightarrow> error + (game \<times> bool)" where
  "Game_move g r c =
     (case get_piece (board g) r c of
        Inl e \<Rightarrow> Inl e
      | Inr piece \<Rightarrow>
          (case selected g of
             None \<Rightarrow> Inr (g, False)
           | Some sel \<Rightarrow>
               (if piece = Empty \<and> (r, c) \<in> fst ` set (valid_moves g) then
                  (case Board_move (board g) sel r c of
                     Inl e \<Rightarrow> Inl e
                   | Inr (b1, sel1) \<Rightarrow>
                       (case map_of (valid_moves g) (r, c) of
                          None \<Rightarrow> Inl KeyError
                        | Some skipped \<Rightarrow>
                            (case (if skipped \<noteq> [] then Board_remove b1 skipped else Inr b1) of
                               Inl e \<Rightarrow> Inl e
                             | Inr b2 \<Rightarrow>
                                 (case change_turn (g\<lparr>board := b2, selected := Some sel1\<rparr>) of
                                    Inl e \<Rightarrow> Inl e
                                  | Inr g1 \<Rightarrow> Inr (g1, True)))))
                else Inr (g, False))))"

text \<open>
  \<^verbatim>\<open>Game.select\<close>. When a piece is selected and \<^verbatim>\<open>_move\<close> fails, the selection is
  cleared and \<^verbatim>\<open>select\<close> calls itself once (the value of that call is dropped); the
  rest of the body runs in every case.
\<close>

function select :: "game \<Rightarrow> int \<Rightarrow> int \<Rightarrow> error + (game \<times> bool)" where
  "select g r c =
     (case (case selected g of
              None \<Rightarrow> Inr g
            | Some s \<Rightarrow>
                (case Game_move g r c of
                   Inl e \<Rightarrow> Inl e
                 | Inr (g1, result) \<Rightarrow>
                     (if \<not> result then
                        (case select (g1\<lparr>selected := None, valid_moves := []\<rparr>) r c of
                           Inl e \<Rightarrow> Inl e
                         | Inr (g2, res2) \<Rightarrow> Inr g2)
                      else Inr g1))) of
        Inl e \<Rightarrow> Inl e
      | Inr g3 \<Rightarrow>
          (case get_piece (board g3) r c of
             Inl e \<Rightarrow> Inl e
           | Inr Empty \<Rightarrow> Inr (g3, False)
           | Inr (Occ piece) \<Rightarrow>
               (if color piece = turn g3 then
                  (let g4 = g3\<lparr>selected := Some piece\<rparr>
                   in case get_skip_status g4 (turn g4) of
                        Inl e \<Rightarrow> Inl e
                      | Inr skip_stat \<Rightarrow>
                          (case get_valid_moves (board g4) piece of
                             Inl e \<Rightarrow> Inl e
                           | Inr (vm, skp) \<Rightarrow>
                               (let g5 = g4\<lparr>valid_moves := vm\<rparr>
                                in if skip_stat \<and> \<not> skp
                                   then Inr (g5\<lparr>selected := None, valid_moves := []\<rparr>, False)
                                   else Inr (g5, True))))
                else Inr (g3, False))))"
  by pat_completeness auto
termination
  by (relation "measure (\<lambda>(g, r, c). if selected g = None then 0 else 1)") auto

declare select.simps [simp del]

subsection \<open>Example positions\<close>

text \<open>
  An 8 by 8 board holding the given pieces, each on the square its coordinates name,
  with the four counters counted from the list.
\<close>

definition board_of :: "piece list \<Rightarrow> board" where
  "board_of ps =
     \<lparr>grid = map (\<lambda>r. map (\<lambda>c. case find (\<lambda>p. row p = r \<and> col p = c) ps of
                                   None \<Rightarrow> Empty
                                 | Some p \<Rightarrow> Occ p) [0..7]) [0..7],
      black_left = int (length (filter (\<lambda>p. color p = BLACK) ps)),
      white_left = int (length (filter (\<lambda>p. color p = WHITE) ps)),
      black_kings = int (length (filter (\<lambda>p. color p = BLACK \<and> king p) ps)),
      white_kings = int (length (filter (\<lambda>p. color p = WHITE \<and> king p) ps))\<rparr>"

definition kingp :: "int \<Rightarrow> int \<Rightarrow> color \<Rightarrow> piece" where
  "kingp r c k = \<lparr>row = r, col = c, color = k, king = True\<rparr>"

subsection \<open>The words of the specification\<close>

text \<open>A piece whose coordinates are squares of the 8 by 8 board.\<close>

definition on_board :: "piece \<Rightarrow> bool" where
  "on_board p = (0 \<le> row p \<and> row p < ROWS \<and> 0 \<le> col p \<and> col p < COLS)"

text \<open>
  The simple-step destinations of a piece, as the specification words them: the
  diagonal neighbours in a direction the piece may move (towards row 0 for WHITE,
  towards row 7 for BLACK, both for a king) that are on the board and empty.
\<close>

definition spec_simple_steps :: "board \<Rightarrow> piece \<Rightarrow> (int \<times> int) list" where
  "spec_simple_steps b p =
     filter (\<lambda>(r, c). 0 \<le> r \<and> r < ROWS \<and> 0 \<le> c \<and> c < COLS \<and> get_piece b r c = Inr Empty)
       ((if color p = WHITE \<or> king p
         then [(row p - 1, col p - 1), (row p - 1, col p + 1)] else [])
        @ (if color p = BLACK \<or> king p
           then [(row p + 1, col p - 1), (row p + 1, col p + 1)] else []))"

text \<open>
  The continuation of a capture chain, as the specification words it: the landing
  square \<open>(r, c)\<close> is a destination with the accumulated capture list \<open>cap\<close>, and
  the search goes on from it along the two diagonals in the direction \<open>step\<close> of the
  jump and, when \<open>backward\<close> holds, along the two diagonals in the opposite direction.
  The specification asks for all four directions for every piece (\<open>backward = True\<close>).
  Each search is started with the capture list the landing square holds at that moment.
\<close>

definition spec_continuation ::
    "grid \<Rightarrow> bool \<Rightarrow> int \<Rightarrow> int \<Rightarrow> color \<Rightarrow> int \<Rightarrow> piece list \<Rightarrow> bool \<Rightarrow> error + moves" where
  "spec_continuation g is_king r step clr c cap backward =
     continue_search (r, c) cap backward
       (\<lambda>s. search_left_loop g is_king (r + step)
              (if step = - 1 then max (r - 3) (- 1) else min (r + 3) ROWS) step clr (c - 1) s [])
       (\<lambda>s. search_right_loop g is_king (r + step)
              (if step = - 1 then max (r - 3) (- 1) else min (r + 3) ROWS) step clr (c + 1) s [])
       (\<lambda>s. search_left_loop g is_king (r - step)
              (if step = - 1 then min (r + 3) ROWS else max (r - 3) (- 1)) (- step) clr (c - 1) s [])
       (\<lambda>s. search_right_loop g is_king (r - step)
              (if step = - 1 then min (r + 3) ROWS else max (r - 3) (- 1)) (- step) clr (c + 1) s [])"

text \<open>
  Every piece of the grid sits on the square its own \<^verbatim>\<open>row\<close> and \<^verbatim>\<open>col\<close> name: the
  invariant of the data model of the specification.
\<close>

definition own_square :: "grid \<Rightarrow> bool" where
  "own_square g =
     (\<forall>i < length g. \<forall>j < length (g ! i). \<forall>p.
        g ! i ! j = Occ p \<longrightarrow> row p = int i \<and> col p = int j)"

text \<open>
  The normalised snapshot of a board, as the specification words it: the pieces of the
  human side (WHITE) replaced by the empty value, the pieces of the automated side tagged
  as man or king.
\<close>

definition spec_snapshot :: "grid \<Rightarrow> snapshot" where
  "spec_snapshot g = map (map (\<lambda>c. case c of Empty \<Rightarrow> H0 | Occ p \<Rightarrow> tag_of p)) g"

text \<open>What one step of \<^verbatim>\<open>prepare_board_state\<close> leaves on the square it reads.\<close>

definition hnorm :: "hcell \<Rightarrow> hcell" where
  "hnorm x = (case x of HPiece p \<Rightarrow> tag_of p | _ \<Rightarrow> x)"

text \<open>A square the loop of \<^verbatim>\<open>prepare_board_state\<close> has still to read, in a copied grid.\<close>

definition row_ready :: "snapshot \<Rightarrow> nat \<Rightarrow> nat \<Rightarrow> bool" where
  "row_ready g i j =
     (g ! i ! j = H0 \<or> (\<exists>p. g ! i ! j = HPiece p \<and> row p = int i \<and> col p = int j))"

text \<open>A game on a given board with a given side to move, the rest as constructed.\<close>

definition game_of :: "board \<Rightarrow> color \<Rightarrow> game" where
  "game_of b t = Game_default\<lparr>board := b, turn := t\<rparr>"

text \<open>An 8 by 8 grid.\<close>

definition rect8 :: "'a list list \<Rightarrow> bool" where
  "rect8 g = (length g = 8 \<and> (\<forall>cs \<in> set g. length cs = 8))"

text \<open>A call returns a value (it raises nothing).\<close>

definition returns :: "error + 'a \<Rightarrow> bool" where
  "returns res = (case res of Inl e \<Rightarrow> False | Inr x \<Rightarrow> True)"

text \<open>Every destination of a move map has a non-empty capture list.\<close>

definition all_captures :: "moves \<Rightarrow> bool" where
  "all_captures ms = (\<forall>kv \<in> set ms. snd kv \<noteq> [])"

definition captures_only :: "error + moves \<Rightarrow> bool" where
  "captures_only res = (case res of Inl e \<Rightarrow> True | Inr ms \<Rightarrow> all_captures ms)"

text \<open>
  The rows a search is called with on the 8 by 8 board: going down it starts at row 0 or
  below it and stops at row 8 at the latest, going up it starts at row 7 or above it and
  stops at row -1 at the latest.
\<close>

definition search_pre :: "int \<Rightarrow> int \<Rightarrow> int \<Rightarrow> bool" where
  "search_pre r stop step =
     ((step = 1 \<and> 0 \<le> r \<and> stop \<le> 8) \<or> (step = - 1 \<and> r \<le> 7 \<and> - 1 \<le> stop))"

text \<open>
  The history after a push, as the specification words it: the snapshot goes to the front,
  and when the list is then longer than the capacity its last (oldest) entry is removed.
\<close>

definition spec_push_history :: "int \<Rightarrow> snapshot \<Rightarrow> snapshot list \<Rightarrow> snapshot list" where
  "spec_push_history cap snap h =
     (if cap < int (length (snap # h)) then butlast (snap # h) else snap # h)"

section \<open>Properties\<close>

subsection \<open>Grid reads and writes\<close>

lemma py_index_bound: "py_index n i = Some k \<Longrightarrow> k < n"
  by (auto simp: py_index_def split: if_splits)

lemma grid_set_InrD:
  assumes "grid_set g r c v = Inr g'"
  shows "\<exists>i j. py_index (length g) r = Some i \<and> py_index (length (g ! i)) c = Some j \<and>
               i < length g \<and> j < length (g ! i) \<and> g' = g[i := (g ! i)[j := v]]"
  using assms
  by (auto simp: grid_set_def dest: py_index_bound split: option.splits)

lemma grid_set_shape:
  assumes "grid_set g r c v = Inr g'"
  shows "length g' = length g" and "length (g' ! i) = length (g ! i)"
  using grid_set_InrD[OF assms] by (auto simp: nth_list_update)

lemma grid_get_set_same:
  assumes "grid_set g r c v = Inr g'"
  shows "grid_get g' r c = Inr v"
proof -
  from grid_set_InrD[OF assms] obtain i j where
    "py_index (length g) r = Some i" "py_index (length (g ! i)) c = Some j"
    "i < length g" "j < length (g ! i)" "g' = g[i := (g ! i)[j := v]]" by blast
  then show ?thesis by (simp add: grid_get_def)
qed

lemma grid_get_set_Empty:
  assumes "grid_set g r c Empty = Inr g'" and "grid_get g r' c' = Inr Empty"
  shows "grid_get g' r' c' = Inr Empty"
proof -
  from grid_set_InrD[OF assms(1)] obtain i j where ij:
    "i < length g" "j < length (g ! i)" "g' = g[i := (g ! i)[j := Empty]]" by blast
  from assms(2) obtain i' j' where ij':
    "py_index (length g) r' = Some i'" "py_index (length (g ! i')) c' = Some j'"
    "g ! i' ! j' = Empty"
    by (auto simp: grid_get_def split: option.splits)
  have "i' < length g" "j' < length (g ! i')" using ij' by (auto dest: py_index_bound)
  with ij ij' show ?thesis
    by (auto simp: grid_get_def nth_list_update)
qed

lemma grid_set_other:
  assumes "grid_set g r c v = Inr g'"
    and "(py_index (length g) r, py_index (length (g ! i)) c) \<noteq> (Some i, Some j)"
  shows "g' ! i ! j = g ! i ! j"
proof -
  from grid_set_InrD[OF assms(1)] obtain i0 j0 where
    "py_index (length g) r = Some i0" "py_index (length (g ! i0)) c = Some j0"
    "i0 < length g" "j0 < length (g ! i0)" "g' = g[i0 := (g ! i0)[j0 := v]]" by blast
  with assms(2) show ?thesis
    by (auto simp: nth_list_update)
qed

lemma Board_remove_keeps_Empty:
  "Board_remove b ps = Inr b' \<Longrightarrow> grid_get (grid b) r c = Inr Empty \<Longrightarrow>
   grid_get (grid b') r c = Inr Empty"
proof (induction ps arbitrary: b)
  case Nil
  then show ?case by simp
next
  case (Cons p ps)
  then show ?case
    by (auto split: sum.splits if_splits dest: grid_get_set_Empty)
qed

lemma Board_remove_shape:
  "Board_remove b ps = Inr b' \<Longrightarrow>
   length (grid b') = length (grid b) \<and> (\<forall>i. length (grid b' ! i) = length (grid b ! i))"
proof (induction ps arbitrary: b)
  case Nil
  then show ?case by simp
next
  case (Cons p ps)
  then show ?case
    by (fastforce split: sum.splits if_splits dest: grid_set_shape)
qed

lemma Board_remove_cleared:
  "Board_remove b ps = Inr b' \<Longrightarrow> p \<in> set ps \<Longrightarrow>
   grid_get (grid b') (row p) (col p) = Inr Empty"
proof (induction ps arbitrary: b)
  case Nil
  then show ?case by simp
next
  case (Cons q ps)
  from Cons.prems(1) obtain g where g: "grid_set (grid b) (row q) (col q) Empty = Inr g"
    by (auto split: sum.splits)
  let ?b1 = "if color q = WHITE then b\<lparr>grid := g, white_left := white_left b - 1\<rparr>
             else b\<lparr>grid := g, black_left := black_left b - 1\<rparr>"
  from Cons.prems(1) g have r: "Board_remove ?b1 ps = Inr b'" by (auto split: if_splits)
  show ?case
  proof (cases "p = q")
    case True
    have "grid_get (grid ?b1) (row q) (col q) = Inr Empty"
      using grid_get_set_same[OF g] by simp
    then show ?thesis using Board_remove_keeps_Empty[OF r] True by blast
  next
    case False
    with Cons.prems(2) have "p \<in> set ps" by simp
    then show ?thesis using Cons.IH[OF r] by blast
  qed
qed

lemma Board_remove_other:
  "Board_remove b ps = Inr b' \<Longrightarrow>
   \<forall>p\<in>set ps. (py_index (length (grid b)) (row p), py_index (length (grid b ! i)) (col p))
                  \<noteq> (Some i, Some j) \<Longrightarrow>
   grid b' ! i ! j = grid b ! i ! j"
proof (induction ps arbitrary: b)
  case Nil
  then show ?case by simp
next
  case (Cons q ps)
  from Cons.prems(1) obtain g where g: "grid_set (grid b) (row q) (col q) Empty = Inr g"
    by (auto split: sum.splits)
  let ?b1 = "if color q = WHITE then b\<lparr>grid := g, white_left := white_left b - 1\<rparr>
             else b\<lparr>grid := g, black_left := black_left b - 1\<rparr>"
  from Cons.prems(1) g have r: "Board_remove ?b1 ps = Inr b'" by (auto split: if_splits)
  have sh: "length (grid ?b1) = length (grid b)" "length (grid ?b1 ! i) = length (grid b ! i)"
    using grid_set_shape[OF g] by auto
  have "grid b' ! i ! j = grid ?b1 ! i ! j"
    using Cons.IH[OF r] Cons.prems(2) sh by simp
  also have "\<dots> = grid b ! i ! j"
    using grid_set_other[OF g] Cons.prems(2) by auto
  finally show ?case .
qed

lemma Board_remove_counters:
  "Board_remove b ps = Inr b' \<Longrightarrow>
   black_kings b' = black_kings b \<and> white_kings b' = white_kings b \<and>
   white_left b' = white_left b - int (length (filter (\<lambda>p. color p = WHITE) ps)) \<and>
   black_left b' = black_left b - int (length (filter (\<lambda>p. color p \<noteq> WHITE) ps))"
proof (induction ps arbitrary: b)
  case Nil
  then show ?case by simp
next
  case (Cons p ps)
  then show ?case
    by (fastforce split: sum.splits if_splits)
qed

subsection \<open>Dict updates\<close>

lemma keys_dict_update:
  "fst ` set (dict_update d other) = fst ` set d \<union> fst ` set other"
proof (induction other arbitrary: d)
  case Nil
  then show ?case by (simp add: dict_update_def)
next
  case (Cons x xs)
  obtain k v where x: "x = (k, v)" by (cases x)
  have "fst ` set (dict_update d (x # xs)) = fst ` set (dict_update (AList.update k v d) xs)"
    using x by (simp add: dict_update_def)
  also have "\<dots> = fst ` set (AList.update k v d) \<union> fst ` set xs" by (rule Cons.IH)
  also have "\<dots> = fst ` set d \<union> fst ` set (x # xs)"
    using x by (auto simp: dom_update)
  finally show ?case .
qed

lemma distinct_dict_update:
  "distinct (map fst d) \<Longrightarrow> distinct (map fst (dict_update d other))"
proof (induction other arbitrary: d)
  case Nil
  then show ?case by (simp add: dict_update_def)
next
  case (Cons x xs)
  obtain k v where x: "x = (k, v)" by (cases x)
  have "distinct (map fst (AList.update k v d))" using Cons.prems by (rule distinct_update)
  then have "distinct (map fst (dict_update (AList.update k v d) xs))" by (rule Cons.IH)
  then show ?case using x by (simp add: dict_update_def)
qed

subsection \<open>One iteration of the search loops\<close>

lemma search_left_loop_landing:
  assumes "step \<noteq> 0" "in_range r stop step" "\<not> left < 0" "grid_get g r left = Inr Empty"
    and "lastp \<noteq> []" and "cap = (if skipped \<noteq> [] then lastp @ skipped else lastp)"
  shows "search_left_loop g is_king r stop step clr left skipped lastp =
     continue_search (r, left) cap is_king
       (\<lambda>s. search_left_loop g is_king (r + step)
              (if step = - 1 then max (r - 3) (- 1) else min (r + 3) ROWS) step clr (left - 1) s [])
       (\<lambda>s. search_right_loop g is_king (r + step)
              (if step = - 1 then max (r - 3) (- 1) else min (r + 3) ROWS) step clr (left + 1) s [])
       (\<lambda>s. search_left_loop g is_king (r - step)
              (if step = - 1 then min (r + 3) ROWS else max (r - 3) (- 1)) (- step) clr (left - 1) s [])
       (\<lambda>s. search_right_loop g is_king (r - step)
              (if step = - 1 then min (r + 3) ROWS else max (r - 3) (- 1)) (- step) clr (left + 1) s [])"
  apply (subst search_left_loop.simps)
  apply (simp only: assms(1-5) assms(6)[symmetric] Let_def if_False if_True
           not_False_eq_True not_True_eq_False sum.case cell.case simp_thms)
  apply (simp only: continue_search_unfold)
  done

lemma search_left_loop_zero:
  "search_left_loop g is_king r stop 0 clr left skipped lastp = Inl ValueError"
  by (subst search_left_loop.simps) simp

lemma search_left_loop_stop:
  assumes "step \<noteq> 0" "\<not> in_range r stop step \<or> left < 0"
  shows "search_left_loop g is_king r stop step clr left skipped lastp = Inr []"
  using assms by (subst search_left_loop.simps) auto

lemma search_left_loop_error:
  assumes "step \<noteq> 0" "in_range r stop step" "\<not> left < 0" "grid_get g r left = Inl e"
  shows "search_left_loop g is_king r stop step clr left skipped lastp = Inl e"
  by (subst search_left_loop.simps) (simp add: assms)

lemma search_left_loop_occ:
  assumes "step \<noteq> 0" "in_range r stop step" "\<not> left < 0" "grid_get g r left = Inr (Occ p)"
  shows "search_left_loop g is_king r stop step clr left skipped lastp =
     (if p \<in> set skipped then Inr []
      else if color p = clr then Inr []
      else search_left_loop g is_king (r + step) stop step clr (left - 1) skipped [p])"
  by (subst search_left_loop.simps) (simp add: assms)

lemma search_left_loop_plain:
  assumes "step \<noteq> 0" "in_range r stop step" "\<not> left < 0" "grid_get g r left = Inr Empty"
  shows "search_left_loop g is_king r stop step clr left skipped [] =
     (if skipped \<noteq> [] then Inr [] else Inr [((r, left), [])])"
  by (subst search_left_loop.simps) (simp add: assms)

lemma search_right_loop_landing:
  assumes "step \<noteq> 0" "in_range r stop step" "\<not> COLS \<le> right" "grid_get g r right = Inr Empty"
    and "lastp \<noteq> []" and "cap = (if skipped \<noteq> [] then lastp @ skipped else lastp)"
  shows "search_right_loop g is_king r stop step clr right skipped lastp =
     continue_search (r, right) cap is_king
       (\<lambda>s. search_left_loop g is_king (r + step)
              (if step = - 1 then max (r - 3) (- 1) else min (r + 3) ROWS) step clr (right - 1) s [])
       (\<lambda>s. search_right_loop g is_king (r + step)
              (if step = - 1 then max (r - 3) (- 1) else min (r + 3) ROWS) step clr (right + 1) s [])
       (\<lambda>s. search_left_loop g is_king (r - step)
              (if step = - 1 then min (r + 3) ROWS else max (r - 3) (- 1)) (- step) clr (right - 1) s [])
       (\<lambda>s. search_right_loop g is_king (r - step)
              (if step = - 1 then min (r + 3) ROWS else max (r - 3) (- 1)) (- step) clr (right + 1) s [])"
  apply (subst search_right_loop.simps)
  apply (simp only: assms(1-5) assms(6)[symmetric] Let_def if_False if_True
           not_False_eq_True not_True_eq_False sum.case cell.case simp_thms)
  apply (simp only: continue_search_unfold)
  done

lemma search_right_loop_zero:
  "search_right_loop g is_king r stop 0 clr right skipped lastp = Inl ValueError"
  by (subst search_right_loop.simps) simp

lemma search_right_loop_stop:
  assumes "step \<noteq> 0" "\<not> in_range r stop step \<or> COLS \<le> right"
  shows "search_right_loop g is_king r stop step clr right skipped lastp = Inr []"
  using assms by (subst search_right_loop.simps) auto

lemma search_right_loop_error:
  assumes "step \<noteq> 0" "in_range r stop step" "\<not> COLS \<le> right" "grid_get g r right = Inl e"
  shows "search_right_loop g is_king r stop step clr right skipped lastp = Inl e"
  by (subst search_right_loop.simps) (simp add: assms)

lemma search_right_loop_occ:
  assumes "step \<noteq> 0" "in_range r stop step" "\<not> COLS \<le> right" "grid_get g r right = Inr (Occ p)"
  shows "search_right_loop g is_king r stop step clr right skipped lastp =
     (if p \<in> set skipped then Inr []
      else if color p = clr then Inr []
      else search_right_loop g is_king (r + step) stop step clr (right + 1) skipped [p])"
  by (subst search_right_loop.simps) (simp add: assms)

lemma search_right_loop_plain:
  assumes "step \<noteq> 0" "in_range r stop step" "\<not> COLS \<le> right" "grid_get g r right = Inr Empty"
  shows "search_right_loop g is_king r stop step clr right skipped [] =
     (if skipped \<noteq> [] then Inr [] else Inr [((r, right), [])])"
  by (subst search_right_loop.simps) (simp add: assms)

subsection \<open>A search that has passed a piece records captures only\<close>

lemma all_captures_Nil: "all_captures []"
  by (simp add: all_captures_def)

lemma all_captures_dict_update:
  "all_captures d \<Longrightarrow> all_captures other \<Longrightarrow> all_captures (dict_update d other)"
  unfolding all_captures_def by (blast dest: dict_update_set)

lemma captures_only_simps:
  "captures_only (Inl e)" "captures_only (Inr ms) = all_captures ms"
  by (simp_all add: captures_only_def)

lemma continue_search_captures_only:
  assumes ne: "cap \<noteq> []"
    and c1: "captures_only (f1 cap)"
    and c2: "\<And>m1 s2. f1 cap = Inr m1 \<Longrightarrow>
               dict_get (dict_update [(k, cap)] m1) k = Inr s2 \<Longrightarrow> s2 \<noteq> [] \<Longrightarrow>
               captures_only (f2 s2)"
    and c3: "\<And>m1 s2 m2 s3. f1 cap = Inr m1 \<Longrightarrow>
               dict_get (dict_update [(k, cap)] m1) k = Inr s2 \<Longrightarrow> f2 s2 = Inr m2 \<Longrightarrow>
               backward \<Longrightarrow>
               dict_get (dict_update (dict_update [(k, cap)] m1) m2) k = Inr s3 \<Longrightarrow>
               s3 \<noteq> [] \<Longrightarrow> captures_only (f3 s3)"
    and c4: "\<And>m1 s2 m2 s3 m3 s4. f1 cap = Inr m1 \<Longrightarrow>
               dict_get (dict_update [(k, cap)] m1) k = Inr s2 \<Longrightarrow> f2 s2 = Inr m2 \<Longrightarrow>
               backward \<Longrightarrow>
               dict_get (dict_update (dict_update [(k, cap)] m1) m2) k = Inr s3 \<Longrightarrow>
               f3 s3 = Inr m3 \<Longrightarrow>
               dict_get (dict_update (dict_update (dict_update [(k, cap)] m1) m2) m3) k = Inr s4 \<Longrightarrow>
               s4 \<noteq> [] \<Longrightarrow> captures_only (f4 s4)"
  shows "captures_only (continue_search k cap backward f1 f2 f3 f4)"
proof (cases "continue_search k cap backward f1 f2 f3 f4")
  case (Inl e)
  then show ?thesis by (simp add: captures_only_simps)
next
  case (Inr m)
  have got: "s \<noteq> []" if "all_captures d" "dict_get d k = Inr s" for d s
    using that by (auto simp: all_captures_def dest!: dict_get_mem)
  have "all_captures m"
  proof (rule continue_search_invariant[OF Inr, where Q = all_captures])
    show "all_captures [(k, cap)]" using ne by (simp add: all_captures_def)
  next
    fix m1 assume "f1 cap = Inr m1"
    with c1 show "all_captures m1" by (simp add: captures_only_simps)
  next
    fix m1 s2 m2
    assume a: "f1 cap = Inr m1" "all_captures (dict_update [(k, cap)] m1)"
      "dict_get (dict_update [(k, cap)] m1) k = Inr s2" "f2 s2 = Inr m2"
    from c2[OF a(1,3) got[OF a(2,3)]] a(4) show "all_captures m2"
      by (simp add: captures_only_simps)
  next
    fix m1 s2 m2 s3 m3
    assume a: "f1 cap = Inr m1" "dict_get (dict_update [(k, cap)] m1) k = Inr s2"
      "f2 s2 = Inr m2" "backward"
      "all_captures (dict_update (dict_update [(k, cap)] m1) m2)"
      "dict_get (dict_update (dict_update [(k, cap)] m1) m2) k = Inr s3" "f3 s3 = Inr m3"
    from c3[OF a(1,2,3,4,6) got[OF a(5,6)]] a(7) show "all_captures m3"
      by (simp add: captures_only_simps)
  next
    fix m1 s2 m2 s3 m3 s4 m4
    assume a: "f1 cap = Inr m1" "dict_get (dict_update [(k, cap)] m1) k = Inr s2"
      "f2 s2 = Inr m2" "backward"
      "dict_get (dict_update (dict_update [(k, cap)] m1) m2) k = Inr s3" "f3 s3 = Inr m3"
      "all_captures (dict_update (dict_update (dict_update [(k, cap)] m1) m2) m3)"
      "dict_get (dict_update (dict_update (dict_update [(k, cap)] m1) m2) m3) k = Inr s4"
      "f4 s4 = Inr m4"
    from c4[OF a(1,2,3,4,5,6,8) got[OF a(7,8)]] a(9) show "all_captures m4"
      by (simp add: captures_only_simps)
  qed (rule all_captures_dict_update)
  with Inr show ?thesis by (simp add: captures_only_simps)
qed

lemma search_captures_only:
  shows "skipped \<noteq> [] \<or> lastp \<noteq> [] \<Longrightarrow>
         captures_only (search_left_loop g is_king r stop step clr c skipped lastp)"
    and "skipped \<noteq> [] \<or> lastp \<noteq> [] \<Longrightarrow>
         captures_only (search_right_loop g is_king r stop step clr c skipped lastp)"
proof (induction g is_king r stop step clr c skipped lastp
         and g is_king r stop step clr c skipped lastp
       rule: search_left_loop_search_right_loop.induct)
  case (1 g is_king r stop step clr left skipped lastp)
  show ?case
  proof (cases "step = 0")
    case True
    then show ?thesis by (simp add: search_left_loop_zero captures_only_simps)
  next
    case s: False
    show ?thesis
    proof (cases "\<not> in_range r stop step \<or> left < 0")
      case True
      then show ?thesis
        by (simp add: search_left_loop_stop[OF s] captures_only_simps all_captures_Nil)
    next
      case False
      then have ir: "in_range r stop step" and ir': "\<not> \<not> in_range r stop step"
        and nl: "\<not> left < 0" by auto
      show ?thesis
      proof (cases "grid_get g r left")
        case (Inl e)
        then show ?thesis
          by (simp add: search_left_loop_error[OF s ir nl] captures_only_simps)
      next
        case (Inr cv)
        show ?thesis
        proof (cases cv)
          case Empty
          with Inr have gg: "grid_get g r left = Inr Empty" by simp
          show ?thesis
          proof (cases "lastp = []")
            case True
            with "1.prems" have "skipped \<noteq> []" by simp
            with True show ?thesis
              by (simp add: search_left_loop_plain[OF s ir nl gg] captures_only_simps
                    all_captures_Nil)
          next
            case lne: False
            let ?cap = "if skipped \<noteq> [] then lastp @ skipped else lastp"
            have capne: "?cap \<noteq> []" using lne by simp
            have ne: "\<not> (skipped \<noteq> [] \<and> lastp = [])" using lne by simp
            note ih1 = "1.IH"(1)[OF s ir' nl gg refl ne refl lne refl dict_get_single]
            note ih2 = "1.IH"(2)[OF s ir' nl gg refl ne refl lne refl dict_get_single _ refl]
            note ih3 = "1.IH"(3)[OF s ir' nl gg refl ne refl lne refl dict_get_single _ refl
                         _ _ refl _ refl]
            note ih4 = "1.IH"(4)[OF s ir' nl gg refl ne refl lne refl dict_get_single _ refl
                         _ _ refl _ refl _ _ refl]
            show ?thesis
              unfolding search_left_loop_landing[OF s ir nl gg lne refl]
              by (rule continue_search_captures_only[OF capne])
                 (use capne ih1 ih2 ih3 ih4 in blast)+
          qed
        next
          case (Occ p)
          with Inr have gg: "grid_get g r left = Inr (Occ p)" by simp
          show ?thesis
            using "1.IH"(5)[OF s ir' nl gg refl]
            by (simp add: search_left_loop_occ[OF s ir nl gg] captures_only_simps
                  all_captures_Nil)
        qed
      qed
    qed
  qed
next
  case (2 g is_king r stop step clr right skipped lastp)
  show ?case
  proof (cases "step = 0")
    case True
    then show ?thesis by (simp add: search_right_loop_zero captures_only_simps)
  next
    case s: False
    show ?thesis
    proof (cases "\<not> in_range r stop step \<or> COLS \<le> right")
      case True
      then show ?thesis
        by (simp add: search_right_loop_stop[OF s] captures_only_simps all_captures_Nil)
    next
      case False
      then have ir: "in_range r stop step" and ir': "\<not> \<not> in_range r stop step"
        and nl: "\<not> COLS \<le> right" by auto
      show ?thesis
      proof (cases "grid_get g r right")
        case (Inl e)
        then show ?thesis
          by (simp add: search_right_loop_error[OF s ir nl] captures_only_simps)
      next
        case (Inr cv)
        show ?thesis
        proof (cases cv)
          case Empty
          with Inr have gg: "grid_get g r right = Inr Empty" by simp
          show ?thesis
          proof (cases "lastp = []")
            case True
            with "2.prems" have "skipped \<noteq> []" by simp
            with True show ?thesis
              by (simp add: search_right_loop_plain[OF s ir nl gg] captures_only_simps
                    all_captures_Nil)
          next
            case lne: False
            let ?cap = "if skipped \<noteq> [] then lastp @ skipped else lastp"
            have capne: "?cap \<noteq> []" using lne by simp
            have ne: "\<not> (skipped \<noteq> [] \<and> lastp = [])" using lne by simp
            note ih1 = "2.IH"(1)[OF s ir' nl gg refl ne refl lne refl dict_get_single]
            note ih2 = "2.IH"(2)[OF s ir' nl gg refl ne refl lne refl dict_get_single _ refl]
            note ih3 = "2.IH"(3)[OF s ir' nl gg refl ne refl lne refl dict_get_single _ refl
                         _ _ refl _ refl]
            note ih4 = "2.IH"(4)[OF s ir' nl gg refl ne refl lne refl dict_get_single _ refl
                         _ _ refl _ refl _ _ refl]
            show ?thesis
              unfolding search_right_loop_landing[OF s ir nl gg lne refl]
              by (rule continue_search_captures_only[OF capne])
                 (use capne ih1 ih2 ih3 ih4 in blast)+
          qed
        next
          case (Occ p)
          with Inr have gg: "grid_get g r right = Inr (Occ p)" by simp
          show ?thesis
            using "2.IH"(5)[OF s ir' nl gg refl]
            by (simp add: search_right_loop_occ[OF s ir nl gg] captures_only_simps
                  all_captures_Nil)
        qed
      qed
    qed
  qed
qed

subsection \<open>The first square of a search\<close>

lemma dict_update_Nil [simp]: "dict_update d [] = d"
  by (simp add: dict_update_def)

lemma search_left_plain_entry:
  assumes "search_left b k r stop step clr c [] = Inr ms" and "(kk, []) \<in> set ms"
  shows "kk = (r, c) \<and> step \<noteq> 0 \<and> in_range r stop step \<and> \<not> c < 0
         \<and> get_piece b r c = Inr Empty"
proof -
  note res = assms(1)[unfolded search_left_def]
  have s: "step \<noteq> 0" using res by (auto simp: search_left_loop_zero)
  have "\<not> (\<not> in_range r stop step \<or> c < 0)"
  proof
    assume "\<not> in_range r stop step \<or> c < 0"
    from search_left_loop_stop[OF s this, of "grid b" k clr "[]" "[]"] res assms(2)
    show False by simp
  qed
  then have ir: "in_range r stop step" and nl: "\<not> c < 0" by auto
  show ?thesis
  proof (cases "grid_get (grid b) r c")
    case (Inl e)
    then show ?thesis using res by (simp add: search_left_loop_error[OF s ir nl])
  next
    case (Inr cv)
    show ?thesis
    proof (cases cv)
      case Empty
      with Inr have gg: "grid_get (grid b) r c = Inr Empty" by simp
      then show ?thesis
        using res assms(2) s ir nl
        by (auto simp: search_left_loop_plain[OF s ir nl gg] get_piece_def)
    next
      case (Occ p)
      with Inr have gg: "grid_get (grid b) r c = Inr (Occ p)" by simp
      have "captures_only (search_left_loop (grid b) k (r + step) stop step clr (c - 1) [] [p])"
        by (rule search_captures_only(1)) simp
      then have "all_captures ms"
        using res
        by (auto simp: search_left_loop_occ[OF s ir nl gg] captures_only_simps all_captures_Nil
                 split: if_splits)
      then show ?thesis using assms(2) by (auto simp: all_captures_def)
    qed
  qed
qed

lemma search_right_plain_entry:
  assumes "search_right b k r stop step clr c [] = Inr ms" and "(kk, []) \<in> set ms"
  shows "kk = (r, c) \<and> step \<noteq> 0 \<and> in_range r stop step \<and> \<not> COLS \<le> c
         \<and> get_piece b r c = Inr Empty"
proof -
  note res = assms(1)[unfolded search_right_def]
  have s: "step \<noteq> 0" using res by (auto simp: search_right_loop_zero)
  have "\<not> (\<not> in_range r stop step \<or> COLS \<le> c)"
  proof
    assume "\<not> in_range r stop step \<or> COLS \<le> c"
    from search_right_loop_stop[OF s this, of "grid b" k clr "[]" "[]"] res assms(2)
    show False by simp
  qed
  then have ir: "in_range r stop step" and nl: "\<not> COLS \<le> c" by auto
  show ?thesis
  proof (cases "grid_get (grid b) r c")
    case (Inl e)
    then show ?thesis using res by (simp add: search_right_loop_error[OF s ir nl])
  next
    case (Inr cv)
    show ?thesis
    proof (cases cv)
      case Empty
      with Inr have gg: "grid_get (grid b) r c = Inr Empty" by simp
      then show ?thesis
        using res assms(2) s ir nl
        by (auto simp: search_right_loop_plain[OF s ir nl gg] get_piece_def)
    next
      case (Occ p)
      with Inr have gg: "grid_get (grid b) r c = Inr (Occ p)" by simp
      have "captures_only (search_right_loop (grid b) k (r + step) stop step clr (c + 1) [] [p])"
        by (rule search_captures_only(2)) simp
      then have "all_captures ms"
        using res
        by (auto simp: search_right_loop_occ[OF s ir nl gg] captures_only_simps all_captures_Nil
                 split: if_splits)
      then show ?thesis using assms(2) by (auto simp: all_captures_def)
    qed
  qed
qed

lemma search_left_plain:
  assumes "step \<noteq> 0" "in_range r stop step" "\<not> c < 0" "get_piece b r c = Inr Empty"
  shows "search_left b k r stop step clr c [] = Inr [((r, c), [])]"
  using assms(4) search_left_loop_plain[OF assms(1-3), of "grid b" k clr "[]"]
  by (simp add: search_left_def get_piece_def)

lemma search_right_plain:
  assumes "step \<noteq> 0" "in_range r stop step" "\<not> COLS \<le> c" "get_piece b r c = Inr Empty"
  shows "search_right b k r stop step clr c [] = Inr [((r, c), [])]"
  using assms(4) search_right_loop_plain[OF assms(1-3), of "grid b" k clr "[]"]
  by (simp add: search_right_def get_piece_def)

lemma searched_moves_InrD:
  assumes "searched_moves b p = Inr M"
  shows "\<exists>m1 m2 m3 m4.
     (if color p = WHITE \<or> king p
      then search_left b (king p) (row p - 1) (max (row p - 3) (- 1)) (- 1) (color p)
             (col p - 1) []
      else Inr []) = Inr m1
   \<and> (if color p = WHITE \<or> king p
      then search_right b (king p) (row p - 1) (max (row p - 3) (- 1)) (- 1) (color p)
             (col p + 1) []
      else Inr []) = Inr m2
   \<and> (if color p = BLACK \<or> king p
      then search_left b (king p) (row p + 1) (min (row p + 3) ROWS) 1 (color p)
             (col p - 1) []
      else Inr []) = Inr m3
   \<and> (if color p = BLACK \<or> king p
      then search_right b (king p) (row p + 1) (min (row p + 3) ROWS) 1 (color p)
             (col p + 1) []
      else Inr []) = Inr m4
   \<and> M = dict_update (dict_update (dict_update (dict_update [] m1) m2) m3) m4"
  using assms
  by (cases "color p = WHITE \<or> king p"; cases "color p = BLACK \<or> king p")
     (auto simp: searched_moves_def Let_def split: sum.splits)

lemma searched_moves_distinct:
  assumes "searched_moves b p = Inr M"
  shows "distinct (map fst M)"
proof -
  from searched_moves_InrD[OF assms] obtain m1 m2 m3 m4 where
    "M = dict_update (dict_update (dict_update (dict_update [] m1) m2) m3) m4" by blast
  then show ?thesis by (simp add: distinct_dict_update)
qed

lemma searched_moves_plain_keys:
  assumes M: "searched_moves b p = Inr M" and ob: "on_board p"
    and plain: "\<forall>kv \<in> set M. snd kv = []"
  shows "fst ` set M = set (spec_simple_steps b p)"
proof -
  let ?up = "color p = WHITE \<or> king p" and ?down = "color p = BLACK \<or> king p"
  from searched_moves_InrD[OF M] obtain m1 m2 m3 m4 where
    r1: "(if ?up then search_left b (king p) (row p - 1) (max (row p - 3) (- 1)) (- 1)
            (color p) (col p - 1) [] else Inr []) = Inr m1"
    and r2: "(if ?up then search_right b (king p) (row p - 1) (max (row p - 3) (- 1)) (- 1)
            (color p) (col p + 1) [] else Inr []) = Inr m2"
    and r3: "(if ?down then search_left b (king p) (row p + 1) (min (row p + 3) ROWS) 1
            (color p) (col p - 1) [] else Inr []) = Inr m3"
    and r4: "(if ?down then search_right b (king p) (row p + 1) (min (row p + 3) ROWS) 1
            (color p) (col p + 1) [] else Inr []) = Inr m4"
    and Meq: "M = dict_update (dict_update (dict_update (dict_update [] m1) m2) m3) m4"
    by blast
  have keys: "fst ` set M = fst ` set m1 \<union> fst ` set m2 \<union> fst ` set m3 \<union> fst ` set m4"
    by (simp add: Meq keys_dict_update)
  have sub: "kv \<in> set M \<Longrightarrow> kv \<in> set m1 \<or> kv \<in> set m2 \<or> kv \<in> set m3 \<or> kv \<in> set m4"
    for kv unfolding Meq by (auto dest!: dict_update_set)
  have bounds: "0 \<le> row p" "row p < 8" "0 \<le> col p" "col p < 8"
    using ob by (simp_all add: on_board_def ROWS_def COLS_def)
  show ?thesis
  proof (rule set_eqI, rule iffI)
    fix k assume "k \<in> fst ` set M"
    then obtain v where kv: "(k, v) \<in> set M" by auto
    with plain have v: "v = []" by auto
    from sub[OF kv] v consider "(k, []) \<in> set m1" | "(k, []) \<in> set m2"
      | "(k, []) \<in> set m3" | "(k, []) \<in> set m4" by auto
    then show "k \<in> set (spec_simple_steps b p)"
    proof cases
      case 1
      with r1 have up: ?up by (auto split: if_splits)
      from search_left_plain_entry[OF r1[unfolded if_P[OF up]] 1] bounds up
      show ?thesis
        by (auto simp: spec_simple_steps_def in_range_def ROWS_def COLS_def)
    next
      case 2
      with r2 have up: ?up by (auto split: if_splits)
      from search_right_plain_entry[OF r2[unfolded if_P[OF up]] 2] bounds up
      show ?thesis
        by (auto simp: spec_simple_steps_def in_range_def ROWS_def COLS_def)
    next
      case 3
      with r3 have down: ?down by (auto split: if_splits)
      from search_left_plain_entry[OF r3[unfolded if_P[OF down]] 3] bounds down
      show ?thesis
        by (auto simp: spec_simple_steps_def in_range_def ROWS_def COLS_def)
    next
      case 4
      with r4 have down: ?down by (auto split: if_splits)
      from search_right_plain_entry[OF r4[unfolded if_P[OF down]] 4] bounds down
      show ?thesis
        by (auto simp: spec_simple_steps_def in_range_def ROWS_def COLS_def)
    qed
  next
    fix k assume "k \<in> set (spec_simple_steps b p)"
    then have e: "get_piece b (fst k) (snd k) = Inr Empty"
      and kb: "0 \<le> fst k" "fst k < 8" "0 \<le> snd k" "snd k < 8"
      and cand: "(?up \<and> (k = (row p - 1, col p - 1) \<or> k = (row p - 1, col p + 1)))
               \<or> (?down \<and> (k = (row p + 1, col p - 1) \<or> k = (row p + 1, col p + 1)))"
      by (auto simp: spec_simple_steps_def ROWS_def COLS_def split: if_splits)
    from cand consider
        (ul) "?up" "k = (row p - 1, col p - 1)"
      | (ur) "?up" "k = (row p - 1, col p + 1)"
      | (dl) "?down" "k = (row p + 1, col p - 1)"
      | (dr) "?down" "k = (row p + 1, col p + 1)" by blast
    then show "k \<in> fst ` set M"
    proof cases
      case ul
      have "search_left b (king p) (row p - 1) (max (row p - 3) (- 1)) (- 1) (color p)
              (col p - 1) [] = Inr [((row p - 1, col p - 1), [])]"
        using e kb ul(2) by (intro search_left_plain) (auto simp: in_range_def)
      with r1 ul(1) have "m1 = [(k, [])]" using ul(2) by simp
      then show ?thesis by (simp add: keys)
    next
      case ur
      have "search_right b (king p) (row p - 1) (max (row p - 3) (- 1)) (- 1) (color p)
              (col p + 1) [] = Inr [((row p - 1, col p + 1), [])]"
        using e kb ur(2) by (intro search_right_plain) (auto simp: in_range_def COLS_def)
      with r2 ur(1) have "m2 = [(k, [])]" using ur(2) by simp
      then show ?thesis by (simp add: keys)
    next
      case dl
      have "search_left b (king p) (row p + 1) (min (row p + 3) ROWS) 1 (color p)
              (col p - 1) [] = Inr [((row p + 1, col p - 1), [])]"
        using e kb dl(2) by (intro search_left_plain) (auto simp: in_range_def ROWS_def)
      with r3 dl(1) have "m3 = [(k, [])]" using dl(2) by simp
      then show ?thesis by (simp add: keys)
    next
      case dr
      have "search_right b (king p) (row p + 1) (min (row p + 3) ROWS) 1 (color p)
              (col p + 1) [] = Inr [((row p + 1, col p + 1), [])]"
        using e kb dr(2)
        by (intro search_right_plain) (auto simp: in_range_def ROWS_def COLS_def)
      with r4 dr(1) have "m4 = [(k, [])]" using dr(2) by simp
      then show ?thesis by (simp add: keys)
    qed
  qed
qed


subsection \<open>The search returns on the 8 by 8 board\<close>

lemma returns_simps: "\<not> returns (Inl e)" "returns (Inr x)"
  by (simp_all add: returns_def)

lemma returns_InrE: "returns res \<Longrightarrow> \<exists>x. res = Inr x"
  by (cases res) (simp_all add: returns_def)

lemma grid_get_rect8:
  assumes "rect8 g" "0 \<le> r" "r < 8" "0 \<le> c" "c < 8"
  shows "grid_get g r c = Inr (g ! nat r ! nat c)"
proof -
  have l: "length g = 8" using assms(1) by (simp add: rect8_def)
  have "nat r < length g" using assms l by simp
  then have "g ! nat r \<in> set g" by simp
  then have "length (g ! nat r) = 8" using assms(1) by (simp add: rect8_def)
  then show ?thesis using assms l by (simp add: grid_get_def py_index_def)
qed

lemma dict_get_key:
  assumes "k \<in> fst ` set d"
  shows "\<exists>v. dict_get d k = Inr v"
proof (cases "map_of d k")
  case None
  with assms show ?thesis by (simp add: map_of_eq_None_iff)
next
  case (Some v)
  then show ?thesis by (simp add: dict_get_def)
qed

lemma dict_get_dict_update_key:
  assumes "k \<in> fst ` set d"
  shows "\<exists>v. dict_get (dict_update d m) k = Inr v"
  using assms by (intro dict_get_key) (simp add: keys_dict_update)

lemma continue_search_returns:
  assumes c1: "returns (f1 cap)"
    and c2: "\<And>m1 s2. f1 cap = Inr m1 \<Longrightarrow>
               dict_get (dict_update [(k, cap)] m1) k = Inr s2 \<Longrightarrow> returns (f2 s2)"
    and c3: "\<And>m1 s2 m2 s3. f1 cap = Inr m1 \<Longrightarrow>
               dict_get (dict_update [(k, cap)] m1) k = Inr s2 \<Longrightarrow> f2 s2 = Inr m2 \<Longrightarrow>
               backward \<Longrightarrow>
               dict_get (dict_update (dict_update [(k, cap)] m1) m2) k = Inr s3 \<Longrightarrow>
               returns (f3 s3)"
    and c4: "\<And>m1 s2 m2 s3 m3 s4. f1 cap = Inr m1 \<Longrightarrow>
               dict_get (dict_update [(k, cap)] m1) k = Inr s2 \<Longrightarrow> f2 s2 = Inr m2 \<Longrightarrow>
               backward \<Longrightarrow>
               dict_get (dict_update (dict_update [(k, cap)] m1) m2) k = Inr s3 \<Longrightarrow>
               f3 s3 = Inr m3 \<Longrightarrow>
               dict_get (dict_update (dict_update (dict_update [(k, cap)] m1) m2) m3) k = Inr s4 \<Longrightarrow>
               returns (f4 s4)"
  shows "returns (continue_search k cap backward f1 f2 f3 f4)"
proof -
  let ?d0 = "[(k, cap)]"
  have k0: "k \<in> fst ` set ?d0" by simp
  from c1 obtain m1 where m1: "f1 cap = Inr m1" by (auto dest: returns_InrE)
  let ?d1 = "dict_update ?d0 m1"
  have k1: "k \<in> fst ` set ?d1" using k0 by (simp add: keys_dict_update)
  from dict_get_key[OF k1] obtain s2 where s2: "dict_get ?d1 k = Inr s2" by blast
  from c2[OF m1 s2] obtain m2 where m2: "f2 s2 = Inr m2" by (auto dest: returns_InrE)
  let ?d2 = "dict_update ?d1 m2"
  have k2: "k \<in> fst ` set ?d2" using k1 by (simp add: keys_dict_update)
  show ?thesis
  proof (cases backward)
    case False
    then show ?thesis
      unfolding continue_search_unfold dict_get_single
      by (simp add: m1 s2 m2 returns_simps)
  next
    case True
    from dict_get_key[OF k2] obtain s3 where s3: "dict_get ?d2 k = Inr s3" by blast
    from c3[OF m1 s2 m2 True s3] obtain m3 where m3: "f3 s3 = Inr m3"
      by (auto dest: returns_InrE)
    let ?d3 = "dict_update ?d2 m3"
    have k3: "k \<in> fst ` set ?d3" using k2 by (simp add: keys_dict_update)
    from dict_get_key[OF k3] obtain s4 where s4: "dict_get ?d3 k = Inr s4" by blast
    from c4[OF m1 s2 m2 True s3 m3 s4] obtain m4 where m4: "f4 s4 = Inr m4"
      by (auto dest: returns_InrE)
    show ?thesis
      unfolding continue_search_unfold dict_get_single
      by (simp add: m1 s2 m2 True s3 m3 s4 m4 returns_simps)
  qed
qed

lemma search_pre_row:
  "search_pre r stop step \<Longrightarrow> in_range r stop step \<Longrightarrow> 0 \<le> r \<and> r < 8"
  by (auto simp: search_pre_def in_range_def)

lemma search_pre_forward:
  "search_pre r stop step \<Longrightarrow> in_range r stop step \<Longrightarrow>
   search_pre (r + step) (if step = - 1 then max (r - 3) (- 1) else min (r + 3) ROWS) step"
  by (auto simp: search_pre_def in_range_def ROWS_def)

lemma search_pre_backward:
  "search_pre r stop step \<Longrightarrow> in_range r stop step \<Longrightarrow>
   search_pre (r - step) (if step = - 1 then min (r + 3) ROWS else max (r - 3) (- 1)) (- step)"
  by (auto simp: search_pre_def in_range_def ROWS_def)

lemma search_pre_next:
  "search_pre r stop step \<Longrightarrow> in_range r stop step \<Longrightarrow> search_pre (r + step) stop step"
  by (auto simp: search_pre_def in_range_def)

lemma search_pre_step: "search_pre r stop step \<Longrightarrow> step \<noteq> 0"
  by (auto simp: search_pre_def)

lemma search_returns:
  shows "rect8 g \<Longrightarrow> search_pre r stop step \<Longrightarrow> c \<le> 7 \<Longrightarrow>
         returns (search_left_loop g is_king r stop step clr c skipped lastp)"
    and "rect8 g \<Longrightarrow> search_pre r stop step \<Longrightarrow> 0 \<le> c \<Longrightarrow>
         returns (search_right_loop g is_king r stop step clr c skipped lastp)"
proof (induction g is_king r stop step clr c skipped lastp
         and g is_king r stop step clr c skipped lastp
       rule: search_left_loop_search_right_loop.induct)
  case (1 g is_king r stop step clr left skipped lastp)
  note rect = \<open>rect8 g\<close> and pre = \<open>search_pre r stop step\<close>
  have s: "step \<noteq> 0" using pre by (rule search_pre_step)
  show ?case
  proof (cases "\<not> in_range r stop step \<or> left < 0")
    case True
    then show ?thesis by (simp add: search_left_loop_stop[OF s] returns_simps)
  next
    case False
    then have ir: "in_range r stop step" and ir': "\<not> \<not> in_range r stop step"
      and nl: "\<not> left < 0" by auto
    have rb: "0 \<le> r" "r < 8" using search_pre_row[OF pre ir] by simp_all
    have cb: "0 \<le> left" "left < 8" using nl \<open>left \<le> 7\<close> by (simp_all add: COLS_def)
    note gv = grid_get_rect8[OF rect rb cb]
    show ?thesis
    proof (cases "g ! nat r ! nat left")
      case Empty
      with gv have gg: "grid_get g r left = Inr Empty" by simp
      show ?thesis
      proof (cases "lastp = []")
        case True
        then show ?thesis
          by (simp add: search_left_loop_plain[OF s ir nl gg] returns_simps)
      next
        case lne: False
        have ne: "\<not> (skipped \<noteq> [] \<and> lastp = [])" using lne by simp
        note fw = search_pre_forward[OF pre ir] and bw = search_pre_backward[OF pre ir]
        note ih1 = "1.IH"(1)[OF s ir' nl gg refl ne refl lne refl dict_get_single rect fw]
        note ih2 = "1.IH"(2)[OF s ir' nl gg refl ne refl lne refl dict_get_single _ refl _
                     rect fw]
        note ih3 = "1.IH"(3)[OF s ir' nl gg refl ne refl lne refl dict_get_single _ refl
                     _ _ refl _ refl _ rect bw]
        note ih4 = "1.IH"(4)[OF s ir' nl gg refl ne refl lne refl dict_get_single _ refl
                     _ _ refl _ refl _ _ refl _ rect bw]
        show ?thesis
          unfolding search_left_loop_landing[OF s ir nl gg lne refl]
          by (rule continue_search_returns) (use cb ih1 ih2 ih3 ih4 in force)+
      qed
    next
      case (Occ p)
      with gv have gg: "grid_get g r left = Inr (Occ p)" by simp
      show ?thesis
        using "1.IH"(5)[OF s ir' nl gg refl _ _ rect search_pre_next[OF pre ir]] cb
        by (simp add: search_left_loop_occ[OF s ir nl gg] returns_simps)
    qed
  qed
next
  case (2 g is_king r stop step clr right skipped lastp)
  note rect = \<open>rect8 g\<close> and pre = \<open>search_pre r stop step\<close>
  have s: "step \<noteq> 0" using pre by (rule search_pre_step)
  show ?case
  proof (cases "\<not> in_range r stop step \<or> COLS \<le> right")
    case True
    then show ?thesis by (simp add: search_right_loop_stop[OF s] returns_simps)
  next
    case False
    then have ir: "in_range r stop step" and ir': "\<not> \<not> in_range r stop step"
      and nl: "\<not> COLS \<le> right" by auto
    have rb: "0 \<le> r" "r < 8" using search_pre_row[OF pre ir] by simp_all
    have cb: "0 \<le> right" "right < 8" using nl \<open>0 \<le> right\<close> by (simp_all add: COLS_def)
    note gv = grid_get_rect8[OF rect rb cb]
    show ?thesis
    proof (cases "g ! nat r ! nat right")
      case Empty
      with gv have gg: "grid_get g r right = Inr Empty" by simp
      show ?thesis
      proof (cases "lastp = []")
        case True
        then show ?thesis
          by (simp add: search_right_loop_plain[OF s ir nl gg] returns_simps)
      next
        case lne: False
        have ne: "\<not> (skipped \<noteq> [] \<and> lastp = [])" using lne by simp
        note fw = search_pre_forward[OF pre ir] and bw = search_pre_backward[OF pre ir]
        note ih1 = "2.IH"(1)[OF s ir' nl gg refl ne refl lne refl dict_get_single rect fw]
        note ih2 = "2.IH"(2)[OF s ir' nl gg refl ne refl lne refl dict_get_single _ refl _
                     rect fw]
        note ih3 = "2.IH"(3)[OF s ir' nl gg refl ne refl lne refl dict_get_single _ refl
                     _ _ refl _ refl _ rect bw]
        note ih4 = "2.IH"(4)[OF s ir' nl gg refl ne refl lne refl dict_get_single _ refl
                     _ _ refl _ refl _ _ refl _ rect bw]
        show ?thesis
          unfolding search_right_loop_landing[OF s ir nl gg lne refl]
          by (rule continue_search_returns) (use cb ih1 ih2 ih3 ih4 in force)+
      qed
    next
      case (Occ p)
      with gv have gg: "grid_get g r right = Inr (Occ p)" by simp
      show ?thesis
        using "2.IH"(5)[OF s ir' nl gg refl _ _ rect search_pre_next[OF pre ir]] cb
        by (simp add: search_right_loop_occ[OF s ir nl gg] returns_simps)
    qed
  qed
qed

lemma get_valid_moves_returns:
  assumes "rect8 (grid b)" and "on_board p"
  shows "\<exists>m h. get_valid_moves b p = Inr (m, h)"
proof -
  have rc: "0 \<le> row p" "row p < 8" "0 \<le> col p" "col p < 8"
    using assms(2) by (simp_all add: on_board_def ROWS_def COLS_def)
  have up: "search_pre (row p - 1) (max (row p - 3) (- 1)) (- 1)"
    and down: "search_pre (row p + 1) (min (row p + 3) ROWS) 1"
    using rc by (simp_all add: search_pre_def ROWS_def)
  have r: "returns (search_left b k (row p - 1) (max (row p - 3) (- 1)) (- 1) clr (col p - 1) [])"
       "returns (search_right b k (row p - 1) (max (row p - 3) (- 1)) (- 1) clr (col p + 1) [])"
       "returns (search_left b k (row p + 1) (min (row p + 3) ROWS) 1 clr (col p - 1) [])"
       "returns (search_right b k (row p + 1) (min (row p + 3) ROWS) 1 clr (col p + 1) [])"
    for k clr
    unfolding search_left_def search_right_def
    using rc by (auto intro!: search_returns assms(1) up down)
  obtain m1 where m1: "search_left b (king p) (row p - 1) (max (row p - 3) (- 1)) (- 1)
      (color p) (col p - 1) [] = Inr m1" using r(1) by (blast dest: returns_InrE)
  obtain m2 where m2: "search_right b (king p) (row p - 1) (max (row p - 3) (- 1)) (- 1)
      (color p) (col p + 1) [] = Inr m2" using r(2) by (blast dest: returns_InrE)
  obtain m3 where m3: "search_left b (king p) (row p + 1) (min (row p + 3) ROWS) 1
      (color p) (col p - 1) [] = Inr m3" using r(3) by (blast dest: returns_InrE)
  obtain m4 where m4: "search_right b (king p) (row p + 1) (min (row p + 3) ROWS) 1
      (color p) (col p + 1) [] = Inr m4" using r(4) by (blast dest: returns_InrE)
  have "returns (searched_moves b p)"
    unfolding searched_moves_def Let_def m1 m2 m3 m4 by (simp add: returns_simps)
  then obtain M where "searched_moves b p = Inr M" by (auto dest: returns_InrE)
  then show ?thesis by (auto simp: get_valid_moves_def Let_def)
qed

subsection \<open>The moves of a colour\<close>

lemma all_moves_loop_length:
  "all_moves_loop b ps acc = Inr ms \<Longrightarrow> length ms = length acc + 2 * length ps"
  by (induction ps arbitrary: acc) (auto split: sum.splits)

lemma Board_get_all_moves_length:
  "Board_get_all_moves b clr = Inr ms \<Longrightarrow> length ms = 2 * length (get_all_pieces b clr)"
  by (auto simp: Board_get_all_moves_def dest: all_moves_loop_length)

lemma get_valid_moves_counters:
  assumes "grid b' = grid b"
  shows "get_valid_moves b' p = get_valid_moves b p"
proof -
  have sl: "search_left b' = search_left b" and sr: "search_right b' = search_right b"
    by (simp_all add: fun_eq_iff search_left_def search_right_def assms)
  have "searched_moves b' p = searched_moves b p"
    unfolding searched_moves_def sl sr ..
  then show ?thesis by (simp add: get_valid_moves_def)
qed

lemma all_moves_loop_counters:
  assumes "grid b' = grid b"
  shows "all_moves_loop b' ps acc = all_moves_loop b ps acc"
  by (induction ps arbitrary: acc)
     (auto simp: get_valid_moves_counters[OF assms] split: sum.splits)

lemma Board_get_all_moves_counters:
  "grid b' = grid b \<Longrightarrow> Board_get_all_moves b' clr = Board_get_all_moves b clr"
  using all_moves_loop_counters[of b' b "get_all_pieces b clr" "[]"]
  by (simp add: Board_get_all_moves_def get_all_pieces_def)


subsection \<open>The snapshot of a board\<close>

lemma grid_set_nonneg:
  assumes "i < length g" "j < length (g ! i)"
  shows "grid_set g (int i) (int j) v = Inr (g[i := (g ! i)[j := v]])"
  using assms by (simp add: grid_set_def py_index_def)

lemma prepare_row_fold:
  assumes "i < length g" and "distinct js"
    and "\<forall>j \<in> set js. j < length (g ! i) \<and> row_ready g i j"
  shows "prepare_row g i js
         = Inr (g[i := fold (\<lambda>j r. r[j := hnorm (r ! j)]) js (g ! i)])"
  using assms
proof (induction js arbitrary: g)
  case Nil
  then show ?case by simp
next
  case (Cons j js)
  let ?f = "\<lambda>j r. r[j := hnorm (r ! j)]"
  from Cons.prems have j: "j < length (g ! i)" and rj: "row_ready g i j"
    and nj: "j \<notin> set js" and d: "distinct js" by auto
  let ?g' = "g[i := ?f j (g ! i)]"
  have g'i: "?g' ! i = ?f j (g ! i)" using Cons.prems(1) by simp
  have step: "prepare_row g i (j # js) = prepare_row ?g' i js"
  proof (cases "g ! i ! j = H0")
    case True
    then have "hnorm (g ! i ! j) = g ! i ! j" by (simp add: hnorm_def)
    then have "?f j (g ! i) = g ! i" by (simp only: list_update_id)
    then have "?g' = g" by (simp only: list_update_id)
    with True show ?thesis by simp
  next
    case False
    with rj obtain p where p: "g ! i ! j = HPiece p" "row p = int i" "col p = int j"
      by (auto simp: row_ready_def)
    then show ?thesis
      using grid_set_nonneg[OF Cons.prems(1) j, of "tag_of p"]
      by (simp add: hnorm_def)
  qed
  have ready: "\<forall>k \<in> set js. k < length (?g' ! i) \<and> row_ready ?g' i k"
  proof
    fix k assume k: "k \<in> set js"
    with nj have "k \<noteq> j" by auto
    moreover from k Cons.prems(3) have "k < length (g ! i)" "row_ready g i k" by auto
    ultimately show "k < length (?g' ! i) \<and> row_ready ?g' i k"
      using Cons.prems(1) by (simp add: row_ready_def)
  qed
  have "prepare_row ?g' i js = Inr (?g'[i := fold ?f js (?g' ! i)])"
    using Cons.IH[of ?g'] Cons.prems(1) d ready by simp
  also have "\<dots> = Inr (g[i := fold ?f (j # js) (g ! i)])"
    using Cons.prems(1) by simp
  finally show ?case using step by simp
qed

lemma fold_update_upt:
  "k \<le> length r \<Longrightarrow>
   fold (\<lambda>j r. r[j := f (r ! j)]) [0..<k] r = map f (take k r) @ drop k r"
proof (induction k)
  case 0
  then show ?case by simp
next
  case (Suc k)
  then have k: "k < length r" by simp
  have "fold (\<lambda>j r. r[j := f (r ! j)]) [0..<Suc k] r
        = (map f (take k r) @ drop k r)[k := f ((map f (take k r) @ drop k r) ! k)]"
    using Suc by simp
  also have "\<dots> = map f (take (Suc k) r) @ drop (Suc k) r"
    using k
    by (simp add: nth_append list_update_append take_Suc_conv_app_nth
          Cons_nth_drop_Suc[symmetric])
  finally show ?case .
qed

lemma prepare_row_map:
  assumes "i < length g" and "\<forall>j < length (g ! i). row_ready g i j"
  shows "prepare_row g i [0..<length (g ! i)] = Inr (g[i := map hnorm (g ! i)])"
  using prepare_row_fold[OF assms(1), of "[0..<length (g ! i)]"] assms(2)
  by (simp add: fold_update_upt)

lemma prepare_rows_fold:
  assumes "distinct is" and "\<forall>i \<in> set is. i < length g \<and> (\<forall>j < length (g ! i). row_ready g i j)"
  shows "prepare_rows g is = Inr (fold (\<lambda>i g. g[i := map hnorm (g ! i)]) is g)"
  using assms
proof (induction "is" arbitrary: g)
  case Nil
  then show ?case by simp
next
  case (Cons i "is")
  let ?g' = "g[i := map hnorm (g ! i)]"
  from Cons.prems have i: "i < length g" and ri: "\<forall>j < length (g ! i). row_ready g i j"
    and ni: "i \<notin> set is" and d: "distinct is" by auto
  have ready: "\<forall>k \<in> set is. k < length ?g' \<and> (\<forall>j < length (?g' ! k). row_ready ?g' k j)"
  proof
    fix k assume k: "k \<in> set is"
    with ni have "k \<noteq> i" by auto
    moreover from k Cons.prems(2)
    have "k < length g" "\<forall>j < length (g ! k). row_ready g k j" by auto
    ultimately show "k < length ?g' \<and> (\<forall>j < length (?g' ! k). row_ready ?g' k j)"
      by (simp add: row_ready_def)
  qed
  show ?case
    using prepare_row_map[OF i ri] Cons.IH[OF d ready] by simp
qed

lemma fold_rows_upt:
  "k \<le> length g \<Longrightarrow>
   fold (\<lambda>i g. g[i := f (g ! i)]) [0..<k] g = map f (take k g) @ drop k g"
  by (rule fold_update_upt)

lemma row_ready_copy_grid:
  assumes "own_square g" "i < length g" "j < length (g ! i)"
  shows "row_ready (copy_grid g) i j"
proof (cases "g ! i ! j")
  case Empty
  then show ?thesis using assms(2,3) by (simp add: row_ready_def copy_grid_def)
next
  case (Occ p)
  with assms have "row p = int i \<and> col p = int j" by (auto simp: own_square_def)
  with Occ show ?thesis using assms(2,3) by (simp add: row_ready_def copy_grid_def)
qed

lemma prepare_board_state_snapshot:
  assumes "own_square g"
  shows "prepare_board_state (copy_grid g) = Inr (spec_snapshot g)"
proof -
  let ?h = "copy_grid g"
  have len: "length ?h = length g" "\<And>i. i < length g \<Longrightarrow> length (?h ! i) = length (g ! i)"
    by (simp_all add: copy_grid_def)
  have "\<forall>i \<in> set [0..<length ?h]. i < length ?h \<and> (\<forall>j < length (?h ! i). row_ready ?h i j)"
    using row_ready_copy_grid[OF assms] len by auto
  then have "prepare_board_state ?h
             = Inr (fold (\<lambda>i g. g[i := map hnorm (g ! i)]) [0..<length ?h] ?h)"
    unfolding prepare_board_state_def by (intro prepare_rows_fold) auto
  also have "fold (\<lambda>i g. g[i := map hnorm (g ! i)]) [0..<length ?h] ?h = map (map hnorm) ?h"
    by (simp add: fold_rows_upt)
  also have "\<dots> = spec_snapshot g"
    by (auto simp: spec_snapshot_def copy_grid_def hnorm_def split: cell.splits)
  finally show ?thesis .
qed

subsection \<open>Promotion in Board.move\<close>

text \<open>
  C1. The claim: landing on row 0 or row 7 makes a piece that was not a king a king and
  adds one to the king counter of its own colour, and changes no king counter for a piece
  that was a king already. The code sets the king flag first and tests
  \<^verbatim>\<open>piece.color == WHITE and not piece.king\<close> afterwards, so the test is never true:
  every landing on row 0 or row 7, by a piece of either colour, king or not, adds one
  to \<^verbatim>\<open>black_kings\<close> and leaves \<^verbatim>\<open>white_kings\<close> as it was.
\<close>

theorem Board_move_counts_black_king:
  assumes "r = ROWS - 1 \<or> r = 0" and "Board_move b p r c = Inr (b', p')"
  shows "king p' \<and> white_kings b' = white_kings b \<and> black_kings b' = black_kings b + 1"
  using assms
  by (auto simp: Board_move_def Let_def elevate_to_king_def Piece_move_def
           split: sum.splits if_splits)

text \<open>
  A white man steps from (1, 2) to (0, 1): it becomes a king, \<^verbatim>\<open>white_kings\<close> stays 0 and
  \<^verbatim>\<open>black_kings\<close> becomes 1.
\<close>

theorem Board_move_counts_black_king_witness:
  "(case Board_move (board_of [Piece 1 2 WHITE, Piece 5 4 BLACK]) (Piece 1 2 WHITE) 0 1 of
      Inl e \<Rightarrow> False
    | Inr (b', p') \<Rightarrow> color p' = WHITE \<and> king p' \<and> white_kings b' = 0 \<and> black_kings b' = 1)"
proof -
  let ?b = "board_of [Piece 1 2 WHITE, Piece 5 4 BLACK]"
  obtain b' p' where m: "Board_move ?b (Piece 1 2 WHITE) 0 1 = Inr (b', p')"
    by (simp add: board_of_def Piece_def Board_move_def grid_get_def grid_set_def py_index_def
          ROWS_def Piece_move_def elevate_to_king_def upto_rec1 Let_def)
  have c: "color p' = WHITE"
    using m
    by (auto simp: Board_move_def Let_def elevate_to_king_def Piece_move_def Piece_def
             split: sum.splits if_splits)
  have "king p' \<and> white_kings b' = white_kings ?b \<and> black_kings b' = black_kings ?b + 1"
    using Board_move_counts_black_king [of 0 ?b "Piece 1 2 WHITE" 1 b' p'] m by simp
  moreover have "white_kings ?b = 0" "black_kings ?b = 0"
    by (simp_all add: board_of_def Piece_def)
  ultimately show ?thesis using m c by simp
qed

subsection \<open>Board.remove leaves the king counters alone\<close>

text \<open>
  C10. \<^verbatim>\<open>Board.remove\<close> clears the square of every piece of its list and takes one off
  \<^verbatim>\<open>white_left\<close> or \<^verbatim>\<open>black_left\<close> for each; every other square keeps its content and
  the two king counters keep their values, whether or not a removed piece is a king. So
  \<^verbatim>\<open>evaluate\<close> afterwards still adds half a point for every king counted before the
  capture.
\<close>

theorem Board_remove_frame:
  assumes "Board_remove b ps = Inr b'"
  shows "black_kings b' = black_kings b \<and> white_kings b' = white_kings b
       \<and> white_left b' = white_left b - int (length (filter (\<lambda>p. color p = WHITE) ps))
       \<and> black_left b' = black_left b - int (length (filter (\<lambda>p. color p \<noteq> WHITE) ps))
       \<and> (\<forall>p \<in> set ps. grid_get (grid b') (row p) (col p) = Inr Empty)
       \<and> (\<forall>i j. (\<forall>p \<in> set ps. (py_index (length (grid b)) (row p),
                                  py_index (length (grid b ! i)) (col p)) \<noteq> (Some i, Some j))
                \<longrightarrow> grid b' ! i ! j = grid b ! i ! j)
       \<and> evaluate b' = (of_int (black_left b') + (1 / 2) * of_int (black_kings b))
                        - (of_int (white_left b') + (1 / 2) * of_int (white_kings b))"
proof -
  note c = Board_remove_counters [OF assms]
  have "evaluate b' = (of_int (black_left b') + (1 / 2) * of_int (black_kings b))
                      - (of_int (white_left b') + (1 / 2) * of_int (white_kings b))"
    using c by (simp add: evaluate_def)
  moreover have "\<forall>p \<in> set ps. grid_get (grid b') (row p) (col p) = Inr Empty"
    using Board_remove_cleared [OF assms] by blast
  moreover have "\<forall>i j. (\<forall>p \<in> set ps. (py_index (length (grid b)) (row p),
                                  py_index (length (grid b ! i)) (col p)) \<noteq> (Some i, Some j))
                \<longrightarrow> grid b' ! i ! j = grid b ! i ! j"
    using Board_remove_other [OF assms] by blast
  ultimately show ?thesis using c by blast
qed

text \<open>
  One white man and one black king, counted as one king: after the king is captured no
  black piece is left, and the score is still \<open>0 + 1/2 - 1\<close>.
\<close>

theorem Board_remove_frame_witness:
  "(case Board_remove (board_of [Piece 4 3 WHITE, kingp 3 2 BLACK]) [kingp 3 2 BLACK] of
      Inl e \<Rightarrow> False
    | Inr b' \<Rightarrow> black_left b' = 0 \<and> black_kings b' = 1 \<and> evaluate b' = - (1 / 2)
              \<and> grid_get (grid b') 3 2 = Inr Empty)"
proof -
  let ?b = "board_of [Piece 4 3 WHITE, kingp 3 2 BLACK]"
  obtain b' where r: "Board_remove ?b [kingp 3 2 BLACK] = Inr b'"
    by (simp add: board_of_def Piece_def kingp_def grid_set_def py_index_def upto_rec1)
  have v: "black_kings ?b = 1" "white_kings ?b = 0" "black_left ?b = 1" "white_left ?b = 1"
    by (simp_all add: board_of_def Piece_def kingp_def)
  have k: "row (kingp 3 2 BLACK) = 3" "col (kingp 3 2 BLACK) = 2"
      "color (kingp 3 2 BLACK) = BLACK"
    by (simp_all add: kingp_def)
  from Board_remove_frame [OF r] v k
  have "black_left b' = 0 \<and> black_kings b' = 1 \<and> evaluate b' = - (1 / 2)
        \<and> grid_get (grid b') 3 2 = Inr Empty"
    by simp
  then show ?thesis using r by simp
qed

subsection \<open>A side without a legal move\<close>

text \<open>
  C2. The claim: \<^verbatim>\<open>winner()\<close> names the opponent of a side that has no legal move, in
  particular when that side still has pieces. \<^verbatim>\<open>Board.get_all_moves\<close> extends its list
  with the pair returned by \<^verbatim>\<open>get_valid_moves\<close>, two entries for every piece whatever
  its moves, so the list is empty only when the colour has no piece on the grid. Here
  White's only man stands on (1, 0) behind a black man on (0, 1): it has no move,
  \<^verbatim>\<open>get_all_moves(WHITE)\<close> has two entries, and \<^verbatim>\<open>winner()\<close> is None.
\<close>

theorem winner_blocked_side:
  "get_valid_moves (board_of [Piece 1 0 WHITE, Piece 0 1 BLACK]) (Piece 1 0 WHITE) = Inr ([], False)
   \<and> get_all_pieces (board_of [Piece 1 0 WHITE, Piece 0 1 BLACK]) WHITE = [Piece 1 0 WHITE]
   \<and> white_left (board_of [Piece 1 0 WHITE, Piece 0 1 BLACK]) = 1
   \<and> Board_get_all_moves (board_of [Piece 1 0 WHITE, Piece 0 1 BLACK]) WHITE
        = Inr [EMoves [], EFlag False]
   \<and> winner (board_of [Piece 1 0 WHITE, Piece 0 1 BLACK]) = Inr None"
  by code_simp

subsection \<open>The counter tests of winner\<close>

text \<open>
  C3. With \<^verbatim>\<open>white_left <= 0\<close> the winner is BLACK. With White still counted,
  \<^verbatim>\<open>black_left < 0\<close> makes the winner WHITE, and any count of 0 or more, 0 included,
  passes the test: the result is then the same for every such count, so it is
  decided by the two \<^verbatim>\<open>get_all_moves\<close> tests alone.
\<close>

theorem winner_counter_tests:
  "(white_left b \<le> 0 \<longrightarrow> winner b = Inr (Some BLACK))
   \<and> (0 < white_left b \<and> black_left b < 0 \<longrightarrow> winner b = Inr (Some WHITE))
   \<and> (0 < white_left b \<and> 0 \<le> black_left b \<and> 0 \<le> n \<longrightarrow>
         winner b = winner (b\<lparr>black_left := n\<rparr>))"
proof -
  have "Board_get_all_moves (b\<lparr>black_left := n\<rparr>) clr = Board_get_all_moves b clr" for clr
    by (rule Board_get_all_moves_counters) simp
  then show ?thesis by (simp add: winner_def cong: sum.case_cong if_cong)
qed

theorem winner_counter_tests_witness:
  "winner ((board_of [Piece 5 0 WHITE, Piece 2 1 BLACK])\<lparr>white_left := 0\<rparr>) = Inr (Some BLACK)
   \<and> winner ((board_of [Piece 5 0 WHITE, Piece 2 1 BLACK])\<lparr>black_left := - 1\<rparr>) = Inr (Some WHITE)
   \<and> winner ((board_of [Piece 5 0 WHITE, Piece 2 1 BLACK])\<lparr>black_left := 0\<rparr>) = Inr None"
proof -
  let ?b = "board_of [Piece 5 0 WHITE, Piece 2 1 BLACK]"
  have w: "white_left ?b = 1" "black_left ?b = 1" by (simp_all add: board_of_def Piece_def)
  have n: "winner ?b = Inr None" by code_simp
  have "winner (?b\<lparr>white_left := 0\<rparr>) = Inr (Some BLACK)"
    using winner_counter_tests [of "?b\<lparr>white_left := 0\<rparr>" 0] by simp
  moreover have "winner (?b\<lparr>black_left := - 1\<rparr>) = Inr (Some WHITE)"
    using winner_counter_tests [of "?b\<lparr>black_left := - 1\<rparr>" 0] w by simp
  moreover have "winner (?b\<lparr>black_left := 0\<rparr>) = Inr None"
    using winner_counter_tests [of ?b 0] w n by simp
  ultimately show ?thesis by simp
qed

subsection \<open>The forced capture of one piece\<close>

text \<open>
  C5. When \<^verbatim>\<open>get_valid_moves\<close> returns the pair (map, hasCapture): hasCapture is true
  exactly when some capture list of the map is non-empty; if some destination found by
  the searches has a non-empty capture list, the map is the found destinations without
  those whose list is empty; otherwise the map is all that was found, every list is
  empty, and for a piece on the board the destinations are the simple steps of the
  specification. The keys of the map are distinct.
\<close>

theorem get_valid_moves_forced_capture:
  assumes "get_valid_moves b p = Inr (m, hasCapture)"
  shows "\<exists>moves. searched_moves b p = Inr moves
     \<and> distinct (map fst m)
     \<and> (hasCapture \<longleftrightarrow> (\<exists>kv \<in> set m. snd kv \<noteq> []))
     \<and> ((\<exists>kv \<in> set moves. snd kv \<noteq> []) \<longrightarrow>
          hasCapture \<and> m = filter (\<lambda>(k, v). v \<noteq> []) moves \<and> (\<forall>kv \<in> set m. snd kv \<noteq> []))
     \<and> ((\<forall>kv \<in> set moves. snd kv = []) \<longrightarrow>
          \<not> hasCapture \<and> m = moves
          \<and> (on_board p \<longrightarrow> fst ` set m = set (spec_simple_steps b p)))"
proof -
  from assms obtain moves where M: "searched_moves b p = Inr moves"
    by (auto simp: get_valid_moves_def split: sum.splits)
  let ?vm = "filter (\<lambda>(k, v). v \<noteq> []) moves"
  have res: "(m, hasCapture) = (if ?vm \<noteq> [] then (?vm, True) else (moves, False))"
    using assms M by (simp add: get_valid_moves_def Let_def split: if_splits)
  have vm: "?vm \<noteq> [] \<longleftrightarrow> (\<exists>kv \<in> set moves. snd kv \<noteq> [])"
    by (force simp: filter_empty_conv)
  have d: "distinct (map fst moves)" by (rule searched_moves_distinct[OF M])
  show ?thesis
  proof (cases "?vm \<noteq> []")
    case True
    with res have m: "m = ?vm" and h: "hasCapture" by simp_all
    have "distinct (map fst m)" unfolding m using d by (rule distinct_map_filter)
    moreover have "\<forall>kv \<in> set m. snd kv \<noteq> []" unfolding m by auto
    moreover have "\<exists>kv \<in> set m. snd kv \<noteq> []"
    proof -
      from True obtain x where x: "x \<in> set ?vm" by (cases ?vm) auto
      then have "snd x \<noteq> []" by auto
      with x show ?thesis unfolding m by blast
    qed
    ultimately show ?thesis using M m h True vm by auto
  next
    case False
    with res have m: "m = moves" and h: "\<not> hasCapture" by simp_all
    from False vm have plain: "\<forall>kv \<in> set moves. snd kv = []" by blast
    have "on_board p \<longrightarrow> fst ` set m = set (spec_simple_steps b p)"
      unfolding m using searched_moves_plain_keys[OF M _ plain] by blast
    then show ?thesis using M m h d plain by auto
  qed
qed

theorem get_valid_moves_forced_capture_witness:
  "get_valid_moves (board_of [Piece 5 2 WHITE, Piece 4 1 BLACK, Piece 5 6 WHITE]) (Piece 5 2 WHITE)
     = Inr ([((3, 0), [Piece 4 1 BLACK])], True)
   \<and> searched_moves (board_of [Piece 5 2 WHITE, Piece 4 1 BLACK, Piece 5 6 WHITE]) (Piece 5 2 WHITE)
     = Inr [((3, 0), [Piece 4 1 BLACK]), ((4, 3), [])]
   \<and> get_valid_moves (board_of [Piece 5 2 WHITE, Piece 4 1 BLACK, Piece 5 6 WHITE]) (Piece 5 6 WHITE)
     = Inr ([((4, 5), []), ((4, 7), [])], False)
   \<and> on_board (Piece 5 6 WHITE)
   \<and> set (spec_simple_steps (board_of [Piece 5 2 WHITE, Piece 4 1 BLACK, Piece 5 6 WHITE])
          (Piece 5 6 WHITE)) = {(4, 5), (4, 7)}"
proof -
  let ?b = "board_of [Piece 5 2 WHITE, Piece 4 1 BLACK, Piece 5 6 WHITE]"
  have g1: "get_valid_moves ?b (Piece 5 2 WHITE) = Inr ([((3, 0), [Piece 4 1 BLACK])], True)"
    by code_simp
  have s1: "searched_moves ?b (Piece 5 2 WHITE)
              = Inr [((3, 0), [Piece 4 1 BLACK]), ((4, 3), [])]"
    by code_simp
  have g2: "get_valid_moves ?b (Piece 5 6 WHITE) = Inr ([((4, 5), []), ((4, 7), [])], False)"
    by code_simp
  have s2: "searched_moves ?b (Piece 5 6 WHITE) = Inr [((4, 5), []), ((4, 7), [])]"
    by code_simp
  have ob: "on_board (Piece 5 6 WHITE)"
    by (simp add: on_board_def Piece_def ROWS_def COLS_def)
  from get_valid_moves_forced_capture [OF g2] s2 ob
  have "fst ` set [((4, 5), []), ((4, 7), [])] = set (spec_simple_steps ?b (Piece 5 6 WHITE))"
    by auto
  then have "set (spec_simple_steps ?b (Piece 5 6 WHITE)) = {(4, 5), (4, 7)}"
    by auto
  with g1 s1 g2 ob show ?thesis by simp
qed

subsection \<open>The continuation of a capture chain\<close>




subsection \<open>Forced capture across the pieces of a colour\<close>

lemma skip_loop_result:
  assumes "\<forall>p \<in> set ps. returns (get_valid_moves b p)"
  shows "skip_loop b ps skp
         = Inr (skp \<or> (\<exists>p \<in> set ps. \<exists>m. get_valid_moves b p = Inr (m, True)))"
  using assms
proof (induction ps arbitrary: skp)
  case Nil
  then show ?case by simp
next
  case (Cons p ps)
  from Cons.prems obtain m h where gv: "get_valid_moves b p = Inr (m, h)"
    by (cases "get_valid_moves b p") (auto simp: returns_def)
  have "skip_loop b (p # ps) skp = skip_loop b ps (if h then True else skp)"
    by (simp add: gv)
  also have "\<dots> = Inr ((if h then True else skp)
                      \<or> (\<exists>q \<in> set ps. \<exists>m. get_valid_moves b q = Inr (m, True)))"
    using Cons.IH Cons.prems by simp
  finally show ?case using gv by auto
qed

lemma get_valid_moves_flag:
  assumes "get_valid_moves b p = Inr (m, h)"
  shows "(h \<longrightarrow> all_captures m) \<and> (\<not> h \<longrightarrow> (\<forall>kv \<in> set m. snd kv = []))"
proof -
  from assms obtain moves where M: "searched_moves b p = Inr moves"
    by (auto simp: get_valid_moves_def split: sum.splits)
  let ?vm = "filter (\<lambda>(k, v). v \<noteq> []) moves"
  have res: "(m, h) = (if ?vm \<noteq> [] then (?vm, True) else (moves, False))"
    using assms M by (simp add: get_valid_moves_def Let_def split: if_splits)
  show ?thesis
  proof (cases "?vm \<noteq> []")
    case True
    with res have "m = ?vm" "h" by simp_all
    then show ?thesis by (auto simp: all_captures_def)
  next
    case False
    with res have m: "m = moves" and h: "\<not> h" by simp_all
    from False have "\<forall>kv \<in> set moves. snd kv = []"
      by (force simp: filter_empty_conv)
    with m h show ?thesis by simp
  qed
qed

lemma select_unselected:
  assumes "selected g = None" and "get_piece (board g) r c = Inr (Occ p)"
    and "color p = turn g" and "get_skip_status g (turn g) = Inr True"
    and "get_valid_moves (board g) p = Inr (m, False)"
  shows "select g r c = Inr (g\<lparr>selected := None, valid_moves := []\<rparr>, False)"
proof -
  note sk = assms(4)[unfolded get_skip_status_def]
  show ?thesis
    by (subst select.simps) (simp add: assms(1,2,3,5) get_skip_status_def sk Let_def)
qed

lemma select_refuses:
  assumes "get_piece (board g) r c = Inr (Occ p)"
    and "color p = turn g" and "get_skip_status g (turn g) = Inr True"
    and "get_valid_moves (board g) p = Inr (m, False)"
  shows "select g r c = Inr (g\<lparr>selected := None, valid_moves := []\<rparr>, False)"
proof (cases "selected g")
  case None
  then show ?thesis by (rule select_unselected[OF _ assms])
next
  case (Some s)
  let ?g0 = "g\<lparr>selected := None, valid_moves := []\<rparr>"
  have mv: "Game_move g r c = Inr (g, False)"
    by (simp add: Game_move_def assms(1) Some)
  have sk0: "get_skip_status ?g0 (turn ?g0) = Inr True"
    using assms(3) by (simp add: get_skip_status_def)
  have inner: "select ?g0 r c = Inr (?g0, False)"
    using select_unselected[of ?g0 r c p m] assms sk0 by simp
  note sk = assms(3)[unfolded get_skip_status_def]
  show ?thesis
    by (subst select.simps)
       (simp add: Some mv inner assms(1,2,4) get_skip_status_def sk Let_def)
qed




subsection \<open>The terminal branch of minimax\<close>

lemma own_square_board_of: "own_square (grid (board_of ps))"
proof -
  have n: "[0..7] ! k = int k" if "k < 8" for k
    using that by (simp add: nth_upto)
  show ?thesis
    unfolding own_square_def board_of_def
    by (auto simp: n find_Some_iff split: option.splits)
qed

lemma list_index_first:
  "i < length xs \<Longrightarrow> xs ! i = y \<Longrightarrow> (\<forall>j < i. xs ! j \<noteq> y) \<Longrightarrow> list_index xs y = Some i"
proof (induction xs arbitrary: i)
  case Nil
  then show ?case by simp
next
  case (Cons x xs)
  show ?case
  proof (cases i)
    case 0
    with Cons.prems show ?thesis by simp
  next
    case (Suc k)
    with Cons.prems have "x \<noteq> y" by auto
    moreover have "list_index xs y = Some k"
      using Cons.prems Suc by (intro Cons.IH) auto
    ultimately show ?thesis using Suc by simp
  qed
qed

lemma minimax_at_terminal:
  assumes "depth = 0 \<or> (\<exists>w. winner position = Inr (Some w))"
  shows "minimax position depth max_player g alpha beta = minimax_terminal position g"
  using assms by (cases depth) auto

text \<open>
  C7. A call of \<^verbatim>\<open>minimax\<close> with \<^verbatim>\<open>depth == 0\<close>, or on a position whose \<^verbatim>\<open>winner()\<close> is
  not \<^verbatim>\<open>None\<close>, returns the position itself, for either player and any \<^verbatim>\<open>alpha\<close> and
  \<^verbatim>\<open>beta\<close>; the score is \<^verbatim>\<open>evaluate()\<close> when the normalised snapshot of the position does
  not occur in the history, and \<^verbatim>\<open>evaluate()\<close> divided by the length of the history minus
  \<open>i\<close> when the snapshot occurs first at index \<open>i\<close>. The position is one where every piece
  sits on the square its \<^verbatim>\<open>row\<close> and \<^verbatim>\<open>col\<close> name, so that the snapshot is the one
  the specification describes and holds no piece object.
\<close>

theorem minimax_terminal_score:
  assumes "depth = 0 \<or> (\<exists>w. winner position = Inr (Some w))"
    and "own_square (grid position)"
  shows "(spec_snapshot (grid position) \<notin> set (board_history g) \<longrightarrow>
            minimax position depth max_player g alpha beta
              = Inr (Fin (evaluate position), Some position))
       \<and> (\<forall>i. i < length (board_history g)
               \<and> board_history g ! i = spec_snapshot (grid position)
               \<and> (\<forall>j < i. board_history g ! j \<noteq> spec_snapshot (grid position)) \<longrightarrow>
            minimax position depth max_player g alpha beta
              = Inr (Fin (evaluate position / of_int (int (length (board_history g)) - int i)),
                     Some position))"
proof -
  let ?s = "spec_snapshot (grid position)"
  note t = minimax_at_terminal[OF assms(1)]
  note p = prepare_board_state_snapshot[OF assms(2)]
  have a: "?s \<notin> set (board_history g) \<longrightarrow>
            minimax position depth max_player g alpha beta
              = Inr (Fin (evaluate position), Some position)"
    by (simp add: t minimax_terminal_def p)
  have b: "\<forall>i. i < length (board_history g) \<and> board_history g ! i = ?s
               \<and> (\<forall>j < i. board_history g ! j \<noteq> ?s) \<longrightarrow>
            minimax position depth max_player g alpha beta
              = Inr (Fin (evaluate position / of_int (int (length (board_history g)) - int i)),
                     Some position)"
  proof (intro allI impI)
    fix i assume i: "i < length (board_history g) \<and> board_history g ! i = ?s
               \<and> (\<forall>j < i. board_history g ! j \<noteq> ?s)"
    then have "list_index (board_history g) ?s = Some i" by (intro list_index_first) auto
    moreover from i have "?s \<in> set (board_history g)" by (metis nth_mem)
    ultimately show "minimax position depth max_player g alpha beta
              = Inr (Fin (evaluate position / of_int (int (length (board_history g)) - int i)),
                     Some position)"
      by (simp add: t minimax_terminal_def p)
  qed
  from a b show ?thesis by blast
qed

theorem minimax_terminal_score_witness:
  "minimax (board_of [Piece 6 1 BLACK, Piece 7 0 WHITE, Piece 7 2 WHITE]) 0 True
       ((game_of (board_of [Piece 6 1 BLACK, Piece 7 0 WHITE, Piece 7 2 WHITE]) BLACK)
          \<lparr>board_history :=
             [[], spec_snapshot (grid (board_of [Piece 6 1 BLACK, Piece 7 0 WHITE, Piece 7 2 WHITE])),
              spec_snapshot (grid (board_of [Piece 6 1 BLACK, Piece 7 0 WHITE, Piece 7 2 WHITE]))]\<rparr>)
       NegInf PosInf
     = Inr (Fin (- (1 / 2)), Some (board_of [Piece 6 1 BLACK, Piece 7 0 WHITE, Piece 7 2 WHITE]))
   \<and> minimax (board_of [Piece 6 1 BLACK, Piece 7 0 WHITE, Piece 7 2 WHITE]) 0 True
       (game_of (board_of [Piece 6 1 BLACK, Piece 7 0 WHITE, Piece 7 2 WHITE]) BLACK)
       NegInf PosInf
     = Inr (Fin (- 1), Some (board_of [Piece 6 1 BLACK, Piece 7 0 WHITE, Piece 7 2 WHITE]))"
proof -
  let ?b = "board_of [Piece 6 1 BLACK, Piece 7 0 WHITE, Piece 7 2 WHITE]"
  let ?s = "spec_snapshot (grid ?b)"
  let ?g = "(game_of ?b BLACK)\<lparr>board_history := [[], ?s, ?s]\<rparr>"
  let ?e = "game_of ?b BLACK"
  have o: "own_square (grid ?b)" by (rule own_square_board_of)
  have ne: "[] \<noteq> ?s" by (simp add: spec_snapshot_def board_of_def)
  have ev: "evaluate ?b = - 1" by (simp add: evaluate_def board_of_def Piece_def)
  have h: "board_history ?g = [[], ?s, ?s]" by simp
  have he: "board_history ?e = []"
    by (simp add: game_of_def Game_default_def Game_def)
  have i: "1 < length (board_history ?g) \<and> board_history ?g ! 1 = ?s
           \<and> (\<forall>j < 1. board_history ?g ! j \<noteq> ?s)"
    unfolding h using ne by simp
  have d: "(0::nat) = 0 \<or> (\<exists>w. winner ?b = Inr (Some w))" by simp
  from minimax_terminal_score [OF d o, of ?g True NegInf PosInf] i
  have "minimax ?b 0 True ?g NegInf PosInf
          = Inr (Fin (evaluate ?b / of_int (int (length (board_history ?g)) - int 1)), Some ?b)"
    by blast
  then have x: "minimax ?b 0 True ?g NegInf PosInf = Inr (Fin (- (1 / 2)), Some ?b)"
    unfolding h ev by simp
  from minimax_terminal_score [OF d o, of ?e True NegInf PosInf]
  have "minimax ?b 0 True ?e NegInf PosInf = Inr (Fin (evaluate ?b), Some ?b)"
    unfolding he by simp
  then have y: "minimax ?b 0 True ?e NegInf PosInf = Inr (Fin (- 1), Some ?b)"
    unfolding ev .
  from x y show ?thesis by (rule conjI)
qed

subsection \<open>A search without a move\<close>

text \<open>
  C8, as the claim states it: a call of \<^verbatim>\<open>minimax\<close> at a depth above 0 on a position
  where the side to move has no resulting board returns \<^verbatim>\<open>None\<close> as the best move. On a
  board with one white man and no black piece, Black, to move, has no resulting board;
  \<^verbatim>\<open>winner()\<close> is WHITE there, the terminal branch is taken, and the call at depth 4
  returns the position itself.
\<close>

theorem minimax_no_move_counterexample:
  "minimax_get_all_moves (board_of [Piece 5 0 WHITE]) BLACK = Inr []
   \<and> winner (board_of [Piece 5 0 WHITE]) = Inr (Some WHITE)
   \<and> minimax (board_of [Piece 5 0 WHITE]) 4 True (game_of (board_of [Piece 5 0 WHITE]) BLACK)
        NegInf PosInf
     = Inr (Fin (- 1), Some (board_of [Piece 5 0 WHITE]))"
  by code_simp

text \<open>
  C8, amended: a call of \<^verbatim>\<open>minimax\<close> at a depth above 0 on a position whose \<^verbatim>\<open>winner()\<close>
  is \<^verbatim>\<open>None\<close> and where the side to move has no resulting board returns \<^verbatim>\<open>None\<close> as the
  best move, with the score \<^verbatim>\<open>-math.inf\<close> for the maximising and \<^verbatim>\<open>math.inf\<close> for the
  minimising player; and \<^verbatim>\<open>Game.ai_move\<close>, when its call of \<^verbatim>\<open>minimax\<close> returns \<^verbatim>\<open>None\<close>
  as the board, returns without raising and leaves the whole game, so its board, its
  turn and its history, as it was.
\<close>

theorem minimax_no_move:
  "(winner position = Inr None
      \<and> minimax_get_all_moves position (if max_player then BLACK else WHITE) = Inr []
      \<and> 0 < depth \<longrightarrow>
        minimax position depth max_player g alpha beta
          = Inr (if max_player then NegInf else PosInf, None))
   \<and> (minimax (get_board g) (ai_intelligence g) True g NegInf PosInf = Inr (v, None) \<longrightarrow>
        ai_move g = Inr g)"
proof -
  have "minimax position depth max_player g alpha beta
          = Inr (if max_player then NegInf else PosInf, None)"
    if "winner position = Inr None"
      "minimax_get_all_moves position (if max_player then BLACK else WHITE) = Inr []"
      "0 < depth"
  proof -
    from that(3) obtain d where d: "depth = Suc d" by (cases depth) auto
    show ?thesis using that(1,2) by (cases max_player) (simp_all add: d)
  qed
  moreover have "ai_move g = Inr g"
    if "minimax (get_board g) (ai_intelligence g) True g NegInf PosInf = Inr (v, None)"
    by (subst ai_move.simps) (simp add: that)
  ultimately show ?thesis by blast
qed

theorem minimax_no_move_witness:
  "minimax (board_of [Piece 6 1 BLACK, Piece 7 0 WHITE, Piece 7 2 WHITE]) 4 True
       (game_of (board_of [Piece 6 1 BLACK, Piece 7 0 WHITE, Piece 7 2 WHITE]) BLACK)
       NegInf PosInf
     = Inr (NegInf, None)
   \<and> ai_move (game_of (board_of [Piece 6 1 BLACK, Piece 7 0 WHITE, Piece 7 2 WHITE]) BLACK)
     = Inr (game_of (board_of [Piece 6 1 BLACK, Piece 7 0 WHITE, Piece 7 2 WHITE]) BLACK)"
proof -
  let ?b = "board_of [Piece 6 1 BLACK, Piece 7 0 WHITE, Piece 7 2 WHITE]"
  let ?g = "game_of ?b BLACK"
  have w: "winner ?b = Inr None" by code_simp
  have e: "minimax_get_all_moves ?b BLACK = Inr []" by code_simp
  have gb: "get_board ?g = ?b" "ai_intelligence ?g = 4"
    by (simp_all add: get_board_def game_of_def Game_default_def Game_def)
  have m: "minimax ?b 4 True ?g NegInf PosInf = Inr (NegInf, None)"
    using minimax_no_move [of ?b True 4 ?g NegInf PosInf] w e by simp
  moreover have "ai_move ?g = Inr ?g"
    using minimax_no_move [of ?b True 4 ?g NegInf PosInf NegInf] m gb by simp
  ultimately show ?thesis by simp
qed

subsection \<open>The history after an automated move\<close>

lemma change_turn_black:
  "turn g = BLACK \<Longrightarrow>
   change_turn g = Inr (g\<lparr>valid_moves := [], selected := None, turn := WHITE\<rparr>)"
  by (subst change_turn.simps) (simp add: Let_def)



end
